theory Spec2Isabelle
  imports Complex_Main "HOL-Library.Log_Nat" "HOL-Library.Multiset"
    "HOL-Library.Product_Lexorder"
begin

section \<open>JavaScript numbers\<close>

text \<open>
  The source computes with JavaScript numbers, that is with IEEE 754 binary64 values:
  the finite ones, the two infinities and NaN. A finite value is modelled by the real
  number it denotes, and every arithmetic operation of the source is followed by the
  rounding of binary64 (to nearest, ties to even, with gradual underflow and overflow
  to infinity).

  The two zeros of binary64 are identified. They compare equal, are both false in a
  condition and are the same key of a \<open>Map\<close>; only a division by zero tells them apart,
  and the source performs none on the values considered here (its quotients are by 2,
  by the length of a non-empty group, and by the difference of two ordinates of which
  one is above and the other not above the ordinate of the point).
\<close>

datatype number = Num real | PosInf | NegInf | NaN

text \<open>Rounding of a real to the nearest integer, ties to the even one.\<close>

definition rhe :: "real \<Rightarrow> int" where
  "rhe z = (let f = \<lfloor>z\<rfloor>; d = z - of_int f
            in if d < 1 / 2 then f else if 1 / 2 < d then f + 1
               else if even f then f else f + 1)"

text \<open>
  Every finite binary64 value is an integer multiple of \<open>2 ^ -1074\<close>. Rounding is done
  on values scaled by \<open>2 ^ 1074\<close>: a scaled value below \<open>2 ^ 53\<close> is rounded to an
  integer (subnormal numbers and the first binade), a scaled value in
  \<open>[2 ^ (52 + q), 2 ^ (53 + q))\<close> to a multiple of \<open>2 ^ q\<close> (53 significant bits).
\<close>

definition qexp :: "real \<Rightarrow> nat" where
  "qexp y = nat (bitlen \<lfloor>\<bar>y\<bar>\<rfloor> - 53)"

definition rs :: "real \<Rightarrow> real" where
  "rs y = of_int (rhe (y / 2 ^ qexp y)) * 2 ^ qexp y"

definition bias :: nat where
  "bias = 1074"

definition fl :: "real \<Rightarrow> real" where
  "fl x = rs (x * 2 ^ bias) / 2 ^ bias"

text \<open>The result of an operation whose exact value is \<open>x\<close>: overflow gives an infinity.\<close>

definition rnd :: "real \<Rightarrow> number" where
  "rnd x = (let v = fl x
            in if 2 ^ 1024 \<le> v then PosInf else if v \<le> - (2 ^ 1024) then NegInf else Num v)"

text \<open>The finite binary64 values among the reals.\<close>

definition isDouble :: "real \<Rightarrow> bool" where
  "isDouble x \<longleftrightarrow> fl x = x \<and> \<bar>x\<bar> < 2 ^ 1024"

fun isNumber :: "number \<Rightarrow> bool" where
  "isNumber (Num x) = isDouble x"
| "isNumber v = True"

fun finite_number :: "number \<Rightarrow> bool" where
  "finite_number (Num x) = isDouble x"
| "finite_number v = False"

fun neg :: "number \<Rightarrow> number" where
  "neg (Num a) = Num (- a)"
| "neg PosInf = NegInf"
| "neg NegInf = PosInf"
| "neg NaN = NaN"

fun add :: "number \<Rightarrow> number \<Rightarrow> number" where
  "add (Num a) (Num b) = rnd (a + b)"
| "add NaN b = NaN"
| "add a NaN = NaN"
| "add PosInf NegInf = NaN"
| "add NegInf PosInf = NaN"
| "add PosInf b = PosInf"
| "add a PosInf = PosInf"
| "add NegInf b = NegInf"
| "add a NegInf = NegInf"

definition sub :: "number \<Rightarrow> number \<Rightarrow> number" where
  "sub a b = add a (neg b)"

text \<open>The sign of a number that is not NaN, as \<open>-1\<close>, \<open>0\<close> or \<open>1\<close>.\<close>

fun signum :: "number \<Rightarrow> int" where
  "signum (Num a) = (if a < 0 then - 1 else if a = 0 then 0 else 1)"
| "signum PosInf = 1"
| "signum NegInf = - 1"
| "signum NaN = 0"

definition infinity :: "int \<Rightarrow> number" where
  "infinity s = (if s = 0 then NaN else if 0 < s then PosInf else NegInf)"

fun mul :: "number \<Rightarrow> number \<Rightarrow> number" where
  "mul (Num a) (Num b) = rnd (a * b)"
| "mul NaN b = NaN"
| "mul a NaN = NaN"
| "mul a b = infinity (signum a * signum b)"

text \<open>
  The quotient. A finite non-zero value divided by zero is an infinity whose sign depends
  on the sign of the zero; that case is not reached and is given the value NaN here.
\<close>

fun divide_number :: "number \<Rightarrow> number \<Rightarrow> number" where
  "divide_number (Num a) (Num b) = (if b = 0 then NaN else rnd (a / b))"
| "divide_number NaN b = NaN"
| "divide_number a NaN = NaN"
| "divide_number (Num a) b = Num 0"
| "divide_number a (Num b) = (if b = 0 then NaN else infinity (signum a * signum (Num b)))"
| "divide_number a b = NaN"

fun lt :: "number \<Rightarrow> number \<Rightarrow> bool" where
  "lt (Num a) (Num b) = (a < b)"
| "lt NaN b = False"
| "lt a NaN = False"
| "lt a NegInf = False"
| "lt PosInf b = False"
| "lt a b = True"

definition gt :: "number \<Rightarrow> number \<Rightarrow> bool" where
  "gt a b = lt b a"

definition le :: "number \<Rightarrow> number \<Rightarrow> bool" where
  "le a b = (a \<noteq> NaN \<and> b \<noteq> NaN \<and> \<not> lt b a)"

fun Math_abs :: "number \<Rightarrow> number" where
  "Math_abs (Num a) = Num \<bar>a\<bar>"
| "Math_abs NaN = NaN"
| "Math_abs a = PosInf"

definition max2 :: "number \<Rightarrow> number \<Rightarrow> number" where
  "max2 a b = (if a = NaN \<or> b = NaN then NaN else if lt a b then b else a)"

definition min2 :: "number \<Rightarrow> number \<Rightarrow> number" where
  "min2 a b = (if a = NaN \<or> b = NaN then NaN else if lt b a then b else a)"

text \<open>
  \<open>Math.min(...vs)\<close> and \<open>Math.max(...vs)\<close>: the infinities on an empty argument list,
  NaN as soon as one argument is NaN.
\<close>

definition Math_min :: "number list \<Rightarrow> number" where
  "Math_min vs = fold (\<lambda>v m. min2 m v) vs PosInf"

definition Math_max :: "number list \<Rightarrow> number" where
  "Math_max vs = fold (\<lambda>v m. max2 m v) vs NegInf"

text \<open>A value is false in a condition when it is zero or NaN.\<close>

definition falsy :: "number \<Rightarrow> bool" where
  "falsy a \<longleftrightarrow> a = Num 0 \<or> a = NaN"

section \<open>Data model\<close>

text \<open>
  Field names that would clash with HOL constants or with one another carry a short
  prefix: \<open>Point.x\<close>/\<open>Point.y\<close> are \<open>px\<close>/\<open>py\<close>, \<open>FurnitureSet.id\<close>/\<open>name\<close> are
  \<open>fs_id\<close>/\<open>fs_name\<close>, and the fields of \<open>PlacedItem\<close> are \<open>item_id\<close>, \<open>item_x\<close>,
  \<open>item_y\<close>, \<open>rotation\<close>, \<open>item_type\<close>.
\<close>

record Point =
  px :: number
  py :: number

text \<open>\<open>enabled\<close> is an optional field: \<open>None\<close> is the absent field.\<close>

record FurnitureSet =
  fs_id :: string
  fs_name :: string
  tableWidth :: number
  tableDepth :: number
  chairCount :: number
  unitPrice :: number
  color :: string
  enabled :: "bool option"

record PlacedItem =
  item_id :: string
  item_x :: number
  item_y :: number
  rotation :: number
  item_type :: FurnitureSet

datatype LayoutPattern = cramped | standard | spacious

definition CHAIR_DIMENSIONS_width :: number where
  "CHAIR_DIMENSIONS_width = Num 500"

definition CHAIR_DIMENSIONS_depth :: number where
  "CHAIR_DIMENSIONS_depth = Num 600"

fun PATTERN_CONFIG_aisleGap :: "LayoutPattern \<Rightarrow> number" where
  "PATTERN_CONFIG_aisleGap cramped = Num 1000"
| "PATTERN_CONFIG_aisleGap standard = Num 1300"
| "PATTERN_CONFIG_aisleGap spacious = Num 1600"

section \<open>Containment tester (layoutEngine.ts)\<close>

text \<open>
  One edge test of the ray-casting loop, for the vertex \<open>vi = vs[i]\<close> and its
  predecessor \<open>vj = vs[j]\<close>. The source's \<open>&&\<close> evaluates the quotient only when the
  first operand is true.
\<close>

definition intersect :: "Point \<Rightarrow> Point \<Rightarrow> Point \<Rightarrow> bool" where
  "intersect point vi vj =
     (if gt (py vi) (py point) \<noteq> gt (py vj) (py point)
      then lt (px point)
             (add (divide_number (mul (sub (px vj) (px vi)) (sub (py point) (py vi)))
                     (sub (py vj) (py vi)))
                  (px vi))
      else False)"

text \<open>
  The loop \<open>for (i = 0, j = vs.length - 1; i < vs.length; j = i++)\<close>: the list argument
  holds the vertices from index \<open>i\<close> on, \<open>vj\<close> is the vertex at index \<open>j\<close>.
\<close>

fun isPointInPolygon_loop :: "Point \<Rightarrow> Point \<Rightarrow> Point list \<Rightarrow> bool \<Rightarrow> bool" where
  "isPointInPolygon_loop point vj [] inside = inside"
| "isPointInPolygon_loop point vj (vi # vs) inside =
     isPointInPolygon_loop point vi vs (if intersect point vi vj then \<not> inside else inside)"

definition isPointInPolygon :: "Point \<Rightarrow> Point list \<Rightarrow> bool" where
  "isPointInPolygon point vs =
     (case vs of [] \<Rightarrow> False
      | _ \<Rightarrow> isPointInPolygon_loop point (last vs) vs False)"

definition corners :: "number \<Rightarrow> number \<Rightarrow> number \<Rightarrow> number \<Rightarrow> Point list" where
  "corners x y w h =
     [\<lparr>px = x, py = y\<rparr>,
      \<lparr>px = add x w, py = y\<rparr>,
      \<lparr>px = add x w, py = add y h\<rparr>,
      \<lparr>px = x, py = add y h\<rparr>,
      \<lparr>px = add x (divide_number w (Num 2)), py = add y (divide_number h (Num 2))\<rparr>]"

definition isRectValid ::
  "number \<Rightarrow> number \<Rightarrow> number \<Rightarrow> number \<Rightarrow> Point list \<Rightarrow> Point list list \<Rightarrow> bool" where
  "isRectValid x y w h polygon holes =
     (if \<not> list_all (\<lambda>p. isPointInPolygon p polygon) (corners x y w h) then False
      else \<not> list_ex (\<lambda>hole. list_ex (\<lambda>p. isPointInPolygon p hole) (corners x y w h)) holes)"

section \<open>Placement engine (layoutEngine.ts)\<close>

text \<open>
  The body of \<open>for (const fType of furnitureTypes)\<close>: the first entry that is not
  disabled and whose footprint is valid at the cursor, if any (the loop's \<open>break\<close>).
\<close>

fun firstFit ::
  "Point list \<Rightarrow> Point list list \<Rightarrow> number \<Rightarrow> number \<Rightarrow> number \<Rightarrow> FurnitureSet list
   \<Rightarrow> FurnitureSet option" where
  "firstFit polygon holes scale currentX currentY [] = None"
| "firstFit polygon holes scale currentX currentY (fType # rest) =
     (if enabled fType = Some False then firstFit polygon holes scale currentX currentY rest
      else
        let w = mul (tableWidth fType) scale;
            h = mul (tableDepth fType) scale;
            chairD = mul CHAIR_DIMENSIONS_depth scale;
            totalH = add h chairD
        in if isRectValid currentX currentY w totalH polygon holes then Some fType
           else firstFit polygon holes scale currentX currentY rest)"

text \<open>
  \<open>crypto.randomUUID()\<close> is the only effect of the engine. It is modelled as a source of
  identifiers \<open>uuid\<close>, whose \<open>k\<close>-th call (counting from 0) returns \<open>uuid k\<close>; the engine
  draws one identifier per emitted item, so the next call is number \<open>length items\<close>.

  The column loop \<open>while (currentX < maxX)\<close> of one row. It returns the row height and
  the item list; \<open>None\<close> is a loop that never exits.
\<close>

partial_function (option) columnLoop ::
  "(nat \<Rightarrow> string) \<Rightarrow> Point list \<Rightarrow> Point list list \<Rightarrow> number \<Rightarrow> FurnitureSet list
   \<Rightarrow> number \<Rightarrow> number \<Rightarrow> number \<Rightarrow> number \<Rightarrow> PlacedItem list
   \<Rightarrow> (number \<times> PlacedItem list) option" where
  "columnLoop uuid polygon holes scale furnitureTypes maxX currentY currentX rowHeight items =
     (if lt currentX maxX then
        (case firstFit polygon holes scale currentX currentY furnitureTypes of
           Some fType \<Rightarrow>
             columnLoop uuid polygon holes scale furnitureTypes maxX currentY
               (add currentX (add (mul (tableWidth fType) scale) (mul (Num 50) scale)))
               (max2 rowHeight
                  (add (mul (tableDepth fType) scale) (mul CHAIR_DIMENSIONS_depth scale)))
               (items @ [\<lparr>item_id = uuid (length items), item_x = currentX, item_y = currentY,
                           rotation = Num 0, item_type = fType\<rparr>])
         | None \<Rightarrow>
             columnLoop uuid polygon holes scale furnitureTypes maxX currentY
               (add currentX (mul (Num 50) scale)) rowHeight items)
      else Some (rowHeight, items))"

text \<open>The row loop \<open>while (currentY < maxY)\<close>.\<close>

partial_function (option) rowLoop ::
  "(nat \<Rightarrow> string) \<Rightarrow> Point list \<Rightarrow> Point list list \<Rightarrow> number \<Rightarrow> FurnitureSet list
   \<Rightarrow> number \<Rightarrow> number \<Rightarrow> number \<Rightarrow> number \<Rightarrow> number \<Rightarrow> PlacedItem list
   \<Rightarrow> PlacedItem list option" where
  "rowLoop uuid polygon holes scale furnitureTypes minX maxX maxY pxAisleGap currentY items =
     (if lt currentY maxY then
        (case columnLoop uuid polygon holes scale furnitureTypes maxX currentY
                (add minX pxAisleGap) (Num 0) items of
           None \<Rightarrow> None
         | Some (rowHeight, items') \<Rightarrow>
             if gt rowHeight (Num 0) then
               rowLoop uuid polygon holes scale furnitureTypes minX maxX maxY pxAisleGap
                 (add currentY (add rowHeight pxAisleGap)) items'
             else
               rowLoop uuid polygon holes scale furnitureTypes minX maxX maxY pxAisleGap
                 (add currentY (mul (Num 100) scale)) items')
      else Some items)"

text \<open>\<open>generateLayout\<close>. The parameter \<open>pattern\<close> is not read by the source.\<close>

definition generateLayout ::
  "(nat \<Rightarrow> string) \<Rightarrow> Point list \<Rightarrow> Point list list \<Rightarrow> number \<Rightarrow> LayoutPattern
   \<Rightarrow> FurnitureSet list \<Rightarrow> number \<Rightarrow> PlacedItem list option" where
  "generateLayout uuid polygon holes scale pattern furnitureTypes aisleGap =
     (let minX = Math_min (map px polygon);
          maxX = Math_max (map px polygon);
          minY = Math_min (map py polygon);
          maxY = Math_max (map py polygon);
          pxAisleGap = mul aisleGap scale
      in rowLoop uuid polygon holes scale furnitureTypes minX maxX maxY pxAisleGap
           (add minY pxAisleGap) [])"

section \<open>Rectilinear normalizer (geometry.ts)\<close>

text \<open>
  \<open>[...values].sort((a, b) => a - b)\<close>. On values without NaN the comparison function
  is consistent and the result is the list in ascending order; \<open>rank\<close> is that order.
  With a NaN among the values the comparison function is not consistent and JavaScript
  leaves the order to the implementation; here NaN is ranked last.
\<close>

fun rank :: "number \<Rightarrow> nat \<times> real" where
  "rank NegInf = (0, 0)"
| "rank (Num a) = (1, a)"
| "rank PosInf = (2, 0)"
| "rank NaN = (3, 0)"

definition sort_numbers :: "number list \<Rightarrow> number list" where
  "sort_numbers values = sort_key rank values"

text \<open>
  The grouping loop of \<open>snapValues\<close>. In the source \<open>currentGroup\<close> is the array that
  was pushed last onto \<open>groups\<close>, and it is extended in place; here \<open>ds\<close> holds the
  groups that are complete and \<open>currentGroup\<close> the open one, so that the source's
  \<open>groups\<close> is \<open>ds @ [currentGroup]\<close>.
\<close>

fun groupLoop ::
  "number \<Rightarrow> number list list \<Rightarrow> number list \<Rightarrow> number list \<Rightarrow> number list list" where
  "groupLoop tolerance ds currentGroup [] = ds @ [currentGroup]"
| "groupLoop tolerance ds currentGroup (val # rest) =
     (if le (Math_abs (sub val (last currentGroup))) tolerance
      then groupLoop tolerance ds (currentGroup @ [val]) rest
      else groupLoop tolerance (ds @ [currentGroup]) [val] rest)"

text \<open>
  \<open>group.reduce((a, b) => a + b, 0) / group.length\<close>. The length of an array is below
  \<open>2 ^ 32\<close> and so is a binary64 value.
\<close>

definition avg :: "number list \<Rightarrow> number" where
  "avg grp = divide_number (fold (\<lambda>b a. add a b) grp (Num 0)) (Num (real (length grp)))"

text \<open>
  \<open>groups.forEach(group => group.forEach(v => valueMap.set(v, avg)))\<close>: a later
  \<open>set\<close> of the same key overwrites the earlier one.
\<close>

definition setGroup :: "number list \<Rightarrow> (number \<rightharpoonup> number) \<Rightarrow> (number \<rightharpoonup> number)" where
  "setGroup grp valueMap = fold (\<lambda>v m. m(v \<mapsto> avg grp)) grp valueMap"

definition buildValueMap :: "number list list \<Rightarrow> (number \<rightharpoonup> number)" where
  "buildValueMap groups = fold setGroup groups Map.empty"

text \<open>
  \<open>valueMap.get(v) || v\<close>: the right operand is taken when the key is absent and also
  when the stored average is false in a condition, that is \<open>0\<close> or NaN.
\<close>

definition getOr :: "(number \<rightharpoonup> number) \<Rightarrow> number \<Rightarrow> number" where
  "getOr valueMap v =
     (case valueMap v of None \<Rightarrow> v | Some a \<Rightarrow> if falsy a then v else a)"

definition snapValues :: "number list \<Rightarrow> number \<Rightarrow> number list" where
  "snapValues values tolerance =
     (let sorted = sort_numbers values
      in case sorted of
           [] \<Rightarrow> []
         | s0 # rest \<Rightarrow>
             let groups = groupLoop tolerance [] [s0] rest;
                 valueMap = buildValueMap groups
             in map (getOr valueMap) values)"

definition snapToRectilinear :: "Point list \<Rightarrow> number \<Rightarrow> Point list" where
  "snapToRectilinear points threshold =
     (if length points < 3 then points
      else
        let xs = map px points;
            ys = map py points;
            newXs = snapValues xs threshold;
            newYs = snapValues ys threshold
        in map (\<lambda>i. \<lparr>px = newXs ! i, py = newYs ! i\<rparr>) [0..<length points])"

section \<open>Concrete inputs\<close>

definition pt :: "real \<Rightarrow> real \<Rightarrow> Point" where
  "pt a b = \<lparr>px = Num a, py = Num b\<rparr>"

definition rectangle :: "real \<Rightarrow> real \<Rightarrow> real \<Rightarrow> real \<Rightarrow> Point list" where
  "rectangle x0 y0 x1 y1 = [pt x0 y0, pt x1 y0, pt x1 y1, pt x0 y1]"

definition square :: "real \<Rightarrow> Point list" where
  "square a = rectangle 0 0 a a"

definition entry :: "real \<Rightarrow> real \<Rightarrow> FurnitureSet" where
  "entry w d = \<lparr>fs_id = ''t'', fs_name = ''table'', tableWidth = Num w, tableDepth = Num d,
                chairCount = Num 2, unitPrice = Num 40000, color = ''#f59e0b'',
                enabled = None\<rparr>"

definition uuidSeq :: "nat \<Rightarrow> string" where
  "uuidSeq k = replicate (Suc k) (CHR ''u'')"

section \<open>Auxiliary notions\<close>

text \<open>The test the engine applies to a footprint before it emits an item.\<close>

definition itemValid :: "Point list \<Rightarrow> Point list list \<Rightarrow> number \<Rightarrow> PlacedItem \<Rightarrow> bool" where
  "itemValid polygon holes scale item =
     isRectValid (item_x item) (item_y item) (mul (tableWidth (item_type item)) scale)
       (add (mul (tableDepth (item_type item)) scale) (mul CHAIR_DIMENSIONS_depth scale))
       polygon holes"

text \<open>The footprint height \<open>totalH\<close> of a catalogue entry, in pixels.\<close>

definition footprintH :: "number \<Rightarrow> FurnitureSet \<Rightarrow> number" where
  "footprintH scale fType = add (mul (tableDepth fType) scale) (mul CHAIR_DIMENSIONS_depth scale)"

text \<open>
  The number of binary64 values from a finite cursor up to a bound \<open>M\<close> is at most the
  distance counted in units of the least positive binary64 value.
\<close>

definition remaining :: "real \<Rightarrow> number \<Rightarrow> nat" where
  "remaining M c = (case c of Num x \<Rightarrow> nat \<lceil>(M - x) / (1 / 2 ^ bias)\<rceil> | _ \<Rightarrow> 0)"




definition chains :: "number list \<Rightarrow> number \<Rightarrow> number list list" where
  "chains values tolerance =
     (case sort_numbers values of [] \<Rightarrow> [] | s0 # rest \<Rightarrow> groupLoop tolerance [] [s0] rest)"

text \<open>
  A cursor of the sweep that has not left the room on the low side: a binary64 value
  not below \<open>lo\<close>, or \<open>+Infinity\<close>. With \<open>lo = 0\<close> this is also the shape of a step.
\<close>

definition cursor :: "real \<Rightarrow> number \<Rightarrow> bool" where
  "cursor lo c \<longleftrightarrow> c = PosInf \<or> (\<exists>x. c = Num x \<and> isDouble x \<and> lo \<le> x)"

text \<open>
  The setting in which the aisle gap is compared: a rectangular room given by binary64
  values, with non-negative ordinates, a positive scale, a catalogue entry of
  non-negative width and depth, and no step of the sweep absorbed by rounding.
\<close>

definition sweepOK :: "real \<Rightarrow> real \<Rightarrow> real \<Rightarrow> real \<Rightarrow> real \<Rightarrow> FurnitureSet \<Rightarrow> bool" where
  "sweepOK x0 y0 x1 y1 s f \<longleftrightarrow>
     isDouble x0 \<and> isDouble x1 \<and> x0 < x1 \<and> isDouble y0 \<and> isDouble y1 \<and> 0 \<le> y0 \<and> y0 < y1
     \<and> 0 < s
     \<and> (\<exists>w d. tableWidth f = Num w \<and> 0 \<le> w \<and> tableDepth f = Num d \<and> 0 \<le> d)
     \<and> (\<forall>x. isDouble x \<and> x0 \<le> x \<and> x < x1
            \<longrightarrow> lt (Num x) (add (Num x) (mul (Num 50) (Num s))))
     \<and> (\<forall>y. isDouble y \<and> y0 \<le> y \<and> y < y1
            \<longrightarrow> lt (Num y) (add (Num y) (mul (Num 100) (Num s))))"

text \<open>The advance of the column cursor after a placement of the entry \<open>f\<close>.\<close>

definition stepX :: "real \<Rightarrow> FurnitureSet \<Rightarrow> number" where
  "stepX s f = add (mul (tableWidth f) (Num s)) (mul (Num 50) (Num s))"

text \<open>Position and table width of an emitted item.\<close>

definition placement :: "PlacedItem \<Rightarrow> number \<times> number \<times> number" where
  "placement item = (item_x item, item_y item, tableWidth (item_type item))"

section \<open>Rounding to binary64\<close>

lemma rhe_of_int [simp]: "rhe (of_int n) = n"
  by (simp add: rhe_def)

lemma rhe_0 [simp]: "rhe 0 = 0"
  by (simp add: rhe_def)

lemma rhe_bounds: "\<lfloor>z\<rfloor> \<le> rhe z" "rhe z \<le> \<lfloor>z\<rfloor> + 1"
  by (simp_all add: rhe_def Let_def)

lemma rhe_mono: "x \<le> y \<Longrightarrow> rhe x \<le> rhe y"
proof -
  assume xy: "x \<le> y"
  then have f: "\<lfloor>x\<rfloor> \<le> \<lfloor>y\<rfloor>" by (rule floor_mono)
  show ?thesis
  proof (cases "\<lfloor>x\<rfloor> = \<lfloor>y\<rfloor>")
    case True
    with xy have "x - of_int \<lfloor>x\<rfloor> \<le> y - of_int \<lfloor>y\<rfloor>" by simp
    with True show ?thesis by (auto simp: rhe_def Let_def)
  next
    case False
    with f have "\<lfloor>x\<rfloor> + 1 \<le> \<lfloor>y\<rfloor>" by simp
    with rhe_bounds(2)[of x] rhe_bounds(1)[of y] show ?thesis by linarith
  qed
qed

lemma rhe_minus: "rhe (- x) = - rhe x"
proof (cases "x = of_int \<lfloor>x\<rfloor>")
  case True
  then obtain n :: int where "x = of_int n" ..
  then have "- x = of_int (- n)" by simp
  then show ?thesis using \<open>x = of_int n\<close> by (simp only: rhe_of_int)
next
  case False
  then have fm: "\<lfloor>- x\<rfloor> = - \<lfloor>x\<rfloor> - 1"
    by (metis floor_minus ceiling_altdef ceiling_def of_int_floor_cancel add.commute
        diff_minus_eq_add minus_diff_eq uminus_add_conv_diff)
  let ?f = "\<lfloor>x\<rfloor>"
  let ?d = "x - of_int ?f"
  have d: "- x - of_int (\<lfloor>- x\<rfloor>) = 1 - ?d" by (simp add: fm)
  have ev: "even (- ?f - 1) \<longleftrightarrow> odd ?f" by simp
  show ?thesis
    unfolding rhe_def Let_def d fm ev
    by (auto simp: )
qed

lemma rhe_nonneg: "0 \<le> x \<Longrightarrow> 0 \<le> rhe x"
  using rhe_mono[of 0 x] by simp


subsection \<open>The exponent\<close>

lemma qexp_small: "\<bar>y\<bar> < 2 ^ 53 \<Longrightarrow> qexp y = 0"
proof -
  assume "\<bar>y\<bar> < 2 ^ 53"
  then have "\<lfloor>\<bar>y\<bar>\<rfloor> < 2 ^ 53" by (simp add: floor_less_iff)
  then have "bitlen \<lfloor>\<bar>y\<bar>\<rfloor> \<le> 53" by (simp add: bitlen_le_iff_power)
  then show ?thesis by (simp add: qexp_def)
qed

lemma qexp_big:
  assumes "0 < n" "2 ^ (52 + n) \<le> \<bar>y\<bar>" "\<bar>y\<bar> < 2 ^ (53 + n)"
  shows "qexp y = n"
proof -
  let ?k = "\<lfloor>\<bar>y\<bar>\<rfloor>"
  from assms(2) have "(2::int) ^ (52 + n) \<le> ?k" by (simp add: le_floor_iff)
  then have "int (53 + n) \<le> bitlen ?k"
    by (auto simp: bitlen_ge_iff_power nat_add_distrib)
  moreover from assms(3) have "?k < 2 ^ (53 + n)" by (simp add: floor_less_iff)
  then have "bitlen ?k \<le> int (53 + n)"
    by (auto simp: bitlen_le_iff_power nat_add_distrib)
  ultimately have "bitlen ?k = int (53 + n)" by simp
  then show ?thesis by (simp add: qexp_def)
qed

lemma qexp_cases:
  obtains "qexp y = 0" "\<bar>y\<bar> < 2 ^ 53"
  | "0 < qexp y" "2 ^ (52 + qexp y) \<le> \<bar>y\<bar>" "\<bar>y\<bar> < 2 ^ (53 + qexp y)"
proof (cases "\<bar>y\<bar> < 2 ^ 53")
  case True
  with qexp_small[OF True] that(1) show ?thesis by simp
next
  case False
  let ?k = "\<lfloor>\<bar>y\<bar>\<rfloor>"
  from False have k: "(2::int) ^ 53 \<le> ?k" by (simp add: le_floor_iff)
  note k
  moreover have "(0::int) < 2 ^ 53" by simp
  ultimately have pos: "0 < ?k" by linarith
  from k have b54: "54 \<le> bitlen ?k" by (simp add: bitlen_ge_iff_power)
  then have q: "int (qexp y) = bitlen ?k - 53" "0 < qexp y" by (simp_all add: qexp_def)
  from bitlen_bounds[OF pos] have "2 ^ nat (bitlen ?k - 1) \<le> ?k" "?k < 2 ^ nat (bitlen ?k)"
    by simp_all
  moreover have "nat (bitlen ?k - 1) = 52 + qexp y" "nat (bitlen ?k) = 53 + qexp y"
    using q b54 by linarith+
  ultimately have "(2::int) ^ (52 + qexp y) \<le> ?k" "?k < 2 ^ (53 + qexp y)" by simp_all
  then have "2 ^ (52 + qexp y) \<le> \<bar>y\<bar>" "\<bar>y\<bar> < 2 ^ (53 + qexp y)"
    by (simp_all add: le_floor_iff floor_less_iff)
  with q(2) that(2) show ?thesis by blast
qed

lemma qexp_minus [simp]: "qexp (- y) = qexp y"
  by (simp add: qexp_def)

lemma qexp_mono: "\<bar>x\<bar> \<le> \<bar>y\<bar> \<Longrightarrow> qexp x \<le> qexp y"
proof -
  assume "\<bar>x\<bar> \<le> \<bar>y\<bar>"
  then have "\<lfloor>\<bar>x\<bar>\<rfloor> \<le> \<lfloor>\<bar>y\<bar>\<rfloor>" by (rule floor_mono)
  then have "bitlen \<lfloor>\<bar>x\<bar>\<rfloor> \<le> bitlen \<lfloor>\<bar>y\<bar>\<rfloor>"
    unfolding bitlen_def by (intro zle_int[THEN iffD2] floorlog_mono) simp
  then show ?thesis by (simp add: qexp_def)
qed

subsection \<open>Rounding on the scaled grid\<close>

lemma rs_minus: "rs (- y) = - rs y"
  by (simp add: rs_def rhe_minus)

lemma rs_0 [simp]: "rs 0 = 0"
  by (simp add: rs_def)

lemma rs_nonneg: "0 \<le> y \<Longrightarrow> 0 \<le> rs y"
  by (simp add: rs_def rhe_nonneg)

lemma rs_small: "\<bar>y\<bar> < 2 ^ 53 \<Longrightarrow> rs y = of_int (rhe y)"
  by (simp add: rs_def qexp_small)

lemma rs_big:
  "0 < n \<Longrightarrow> 2 ^ (52 + n) \<le> \<bar>y\<bar> \<Longrightarrow> \<bar>y\<bar> < 2 ^ (53 + n)
   \<Longrightarrow> rs y = of_int (rhe (y / 2 ^ n)) * 2 ^ n"
  by (simp add: rs_def qexp_big)

lemma rs_int: "\<exists>k::int. rs y = of_int k"
proof -
  have "rs y = of_int (rhe (y / 2 ^ qexp y) * 2 ^ qexp y)" by (simp add: rs_def)
  then show ?thesis ..
qed

lemma rs_upper:
  assumes "0 \<le> y"
  shows "rs y \<le> 2 ^ (53 + qexp y)"
proof -
  let ?q = "qexp y"
  have "y < 2 ^ (53 + ?q)" by (cases y rule: qexp_cases) (use assms in simp_all)
  then have "y / 2 ^ ?q \<le> 2 ^ 53" by (simp add: power_add field_simps)
  then have "rhe (y / 2 ^ ?q) \<le> rhe (of_int (2 ^ 53))" by (intro rhe_mono) simp
  then have "rhe (y / 2 ^ ?q) \<le> 2 ^ 53" by (simp only: rhe_of_int)
  then have "real_of_int (rhe (y / 2 ^ ?q)) \<le> 2 ^ 53"
    by (metis of_int_le_iff of_int_numeral of_int_power)
  then have "real_of_int (rhe (y / 2 ^ ?q)) * 2 ^ ?q \<le> 2 ^ 53 * 2 ^ ?q"
    by (intro mult_right_mono) simp_all
  then show ?thesis by (simp add: rs_def power_add)
qed

lemma rs_lower:
  assumes "0 \<le> y" "0 < qexp y"
  shows "2 ^ (52 + qexp y) \<le> rs y"
proof -
  let ?q = "qexp y"
  have "2 ^ (52 + ?q) \<le> y" by (cases y rule: qexp_cases) (use assms in simp_all)
  then have "2 ^ 52 \<le> y / 2 ^ ?q" by (simp add: power_add field_simps)
  then have "rhe (of_int (2 ^ 52)) \<le> rhe (y / 2 ^ ?q)" by (intro rhe_mono) simp
  then have "2 ^ 52 \<le> rhe (y / 2 ^ ?q)" by (simp only: rhe_of_int)
  then have "2 ^ 52 \<le> real_of_int (rhe (y / 2 ^ ?q))"
    by (metis of_int_le_iff of_int_numeral of_int_power)
  then have "2 ^ 52 * 2 ^ ?q \<le> real_of_int (rhe (y / 2 ^ ?q)) * 2 ^ ?q"
    by (intro mult_right_mono) simp_all
  then show ?thesis by (simp add: rs_def power_add)
qed

lemma rs_mono_nonneg:
  assumes "0 \<le> x" "x \<le> y"
  shows "rs x \<le> rs y"
proof -
  from assms have q: "qexp x \<le> qexp y" by (intro qexp_mono) simp
  show ?thesis
  proof (cases "qexp x = qexp y")
    case True
    have "x / 2 ^ qexp y \<le> y / 2 ^ qexp y" using assms(2) by (simp add: divide_right_mono)
    then have "rhe (x / 2 ^ qexp y) \<le> rhe (y / 2 ^ qexp y)" by (rule rhe_mono)
    then have "real_of_int (rhe (x / 2 ^ qexp y)) * 2 ^ qexp y
        \<le> real_of_int (rhe (y / 2 ^ qexp y)) * 2 ^ qexp y"
      by (intro mult_right_mono) simp_all
    with True show ?thesis by (simp add: rs_def)
  next
    case False
    with q have lt: "qexp x < qexp y" by simp
    from assms have y0: "0 \<le> y" by simp
    have "rs x \<le> 2 ^ (53 + qexp x)" by (rule rs_upper[OF assms(1)])
    also have "\<dots> \<le> (2::real) ^ (52 + qexp y)"
      using lt by (intro power_increasing) simp_all
    also have "\<dots> \<le> rs y" using lt by (intro rs_lower[OF y0]) simp
    finally show ?thesis .
  qed
qed

lemma rs_mono: "x \<le> y \<Longrightarrow> rs x \<le> rs y"
proof -
  assume xy: "x \<le> y"
  consider "0 \<le> x" | "y \<le> 0" | "x < 0" "0 < y" by linarith
  then show ?thesis
  proof cases
    case 1
    then show ?thesis using xy by (rule rs_mono_nonneg)
  next
    case 2
    then have "rs (- y) \<le> rs (- x)" using xy by (intro rs_mono_nonneg) simp_all
    then show ?thesis by (simp add: rs_minus)
  next
    case 3
    then have "0 \<le> rs (- x)" "0 \<le> rs y" by (simp_all add: rs_nonneg)
    then show ?thesis by (simp add: rs_minus)
  qed
qed

lemma rs_exact_strict:
  assumes "\<bar>m\<bar> < 2 ^ 53"
  shows "rs (of_int m * 2 ^ j) = of_int m * 2 ^ j"
proof -
  let ?y = "real_of_int m * 2 ^ j"
  have ay: "\<bar>?y\<bar> = real_of_int \<bar>m\<bar> * 2 ^ j" by (simp add: abs_mult)
  from assms have "real_of_int \<bar>m\<bar> < 2 ^ 53"
    by (metis of_int_less_iff of_int_numeral of_int_power)
  then have "\<bar>?y\<bar> < 2 ^ 53 * 2 ^ j" unfolding ay by (intro mult_strict_right_mono) simp_all
  then have up: "\<bar>?y\<bar> < 2 ^ (53 + j)" by (simp add: power_add)
  have "qexp ?y \<le> j"
  proof (cases ?y rule: qexp_cases)
    case 1
    then show ?thesis by simp
  next
    case 2
    from 2(2) up have "(2::real) ^ (52 + qexp ?y) < 2 ^ (53 + j)" by linarith
    then have "52 + qexp ?y < 53 + j" by (simp add: power_strict_increasing_iff)
    then show ?thesis by linarith
  qed
  then obtain d where d: "j = qexp ?y + d" using le_Suc_ex by blast
  have "?y / 2 ^ qexp ?y = real_of_int (m * 2 ^ d)"
    by (subst (1) d) (simp add: power_add)
  then have "rhe (?y / 2 ^ qexp ?y) = m * 2 ^ d" by (simp only: rhe_of_int)
  then have "rs ?y = real_of_int (m * 2 ^ d) * 2 ^ qexp ?y" by (simp add: rs_def)
  also have "\<dots> = ?y" by (subst (2) d) (simp add: power_add)
  finally show ?thesis .
qed

lemma rs_exact:
  assumes "\<bar>m\<bar> \<le> 2 ^ 53"
  shows "rs (of_int m * 2 ^ j) = of_int m * 2 ^ j"
proof (cases "\<bar>m\<bar> < 2 ^ 53")
  case True
  then show ?thesis by (rule rs_exact_strict)
next
  case False
  with assms have "\<bar>m\<bar> = 2 ^ 53" by simp
  then consider "m = 2 ^ 53" | "m = - (2 ^ 53)" by (auto simp: abs_if split: if_splits)
  then show ?thesis
  proof cases
    case 1
    have "real_of_int m * 2 ^ j = real_of_int (2 ^ 52) * 2 ^ Suc j" by (simp add: 1)
    then show ?thesis using rs_exact_strict[of "2 ^ 52" "Suc j"] by simp
  next
    case 2
    have "real_of_int m * 2 ^ j = real_of_int (- (2 ^ 52)) * 2 ^ Suc j" by (simp add: 2)
    then show ?thesis using rs_exact_strict[of "- (2 ^ 52)" "Suc j"] by simp
  qed
qed

lemma rs_idem: "rs (rs y) = rs y"
proof -
  have nn: "rs (rs y) = rs y" if "0 \<le> y" for y
  proof -
    let ?n = "rhe (y / 2 ^ qexp y)"
    have "0 \<le> y / 2 ^ qexp y" using that by simp
    then have n0: "0 \<le> ?n" by (rule rhe_nonneg)
    have "rs y \<le> 2 ^ (53 + qexp y)" by (rule rs_upper[OF that])
    then have "real_of_int ?n * 2 ^ qexp y \<le> 2 ^ 53 * 2 ^ qexp y"
      by (simp add: rs_def power_add)
    then have "real_of_int ?n \<le> 2 ^ 53" by simp
    then have "?n \<le> 2 ^ 53" by (metis of_int_le_iff of_int_numeral of_int_power)
    with n0 have "\<bar>?n\<bar> \<le> 2 ^ 53" by simp
    from rs_exact[OF this, of "qexp y"] show ?thesis by (simp add: rs_def)
  qed
  show ?thesis
  proof (cases "0 \<le> y")
    case True
    then show ?thesis by (rule nn)
  next
    case False
    then have "rs (rs (- y)) = rs (- y)" by (intro nn) simp
    then show ?thesis by (simp add: rs_minus)
  qed
qed

subsection \<open>Rounding to binary64\<close>

lemma fl_0 [simp]: "fl 0 = 0"
  by (simp add: fl_def)

lemma fl_minus: "fl (- x) = - fl x"
  by (simp add: fl_def rs_minus)

lemma fl_mono: "x \<le> y \<Longrightarrow> fl x \<le> fl y"
  by (simp add: fl_def rs_mono divide_right_mono)

lemma fl_idem [simp]: "fl (fl x) = fl x"
  by (simp add: fl_def rs_idem)

lemma fl_nonneg: "0 \<le> x \<Longrightarrow> 0 \<le> fl x"
  using fl_mono[of 0 x] by simp

lemma fl_grid: "\<exists>k::int. fl x * 2 ^ bias = of_int k"
  using rs_int[of "x * 2 ^ bias"] by (simp add: fl_def)

lemma fl_exact_up: "\<bar>m\<bar> \<le> 2 ^ 53 \<Longrightarrow> fl (of_int m * 2 ^ j) = of_int m * 2 ^ j"
proof -
  assume m: "\<bar>m\<bar> \<le> 2 ^ 53"
  have e: "real_of_int m * 2 ^ j * 2 ^ bias = real_of_int m * 2 ^ (j + bias)"
    by (simp add: power_add)
  have "fl (of_int m * 2 ^ j) = real_of_int m * 2 ^ (j + bias) / 2 ^ bias"
    unfolding fl_def e by (simp only: rs_exact[OF m])
  then show ?thesis by (simp add: power_add)
qed

lemma fl_exact_down:
  "\<bar>m\<bar> \<le> 2 ^ 53 \<Longrightarrow> j \<le> bias \<Longrightarrow> fl (of_int m / 2 ^ j) = of_int m / 2 ^ j"
proof -
  assume m: "\<bar>m\<bar> \<le> 2 ^ 53" and j: "j \<le> bias"
  then obtain d where d: "bias = j + d" using le_Suc_ex by blast
  have e: "real_of_int m / 2 ^ j * 2 ^ bias = real_of_int m * 2 ^ d"
    by (subst d) (simp add: power_add)
  have "fl (of_int m / 2 ^ j) = real_of_int m * 2 ^ d / 2 ^ bias"
    unfolding fl_def e by (simp only: rs_exact[OF m])
  also have "\<dots> = real_of_int m / 2 ^ j"
    by (subst d) (simp add: power_add)
  finally show ?thesis .
qed

lemma fl_of_int: "\<bar>m\<bar> \<le> 2 ^ 53 \<Longrightarrow> fl (of_int m) = of_int m"
  using fl_exact_up[of m 0] by simp

text \<open>Rounding never crosses a binary64 number.\<close>

lemma fl_le: "x \<le> a \<Longrightarrow> fl a = a \<Longrightarrow> fl x \<le> a"
  using fl_mono[of x a] by simp

lemma fl_ge: "a \<le> x \<Longrightarrow> fl a = a \<Longrightarrow> a \<le> fl x"
  using fl_mono[of a x] by simp

lemma fl_eval_down:
  assumes n: "n \<le> bias" and lo: "2 ^ 52 \<le> \<bar>x\<bar> * 2 ^ n" and hi: "\<bar>x\<bar> * 2 ^ n < 2 ^ 53"
  shows "fl x = of_int (rhe (x * 2 ^ n)) / 2 ^ n"
proof -
  obtain d where d: "bias = n + d" using n by (auto simp: le_iff_add)
  let ?y = "x * 2 ^ bias"
  have y: "\<bar>?y\<bar> = \<bar>x\<bar> * 2 ^ n * 2 ^ d" by (simp add: d power_add abs_mult)
  show ?thesis
  proof (cases "d = 0")
    case True
    with y hi have "\<bar>?y\<bar> < 2 ^ 53" by simp
    from rs_small[OF this] True d show ?thesis by (simp add: fl_def)
  next
    case False
    have "2 ^ 52 * 2 ^ d \<le> \<bar>?y\<bar>" unfolding y using lo by (intro mult_right_mono) simp_all
    moreover have "\<bar>?y\<bar> < 2 ^ 53 * 2 ^ d" unfolding y using hi by (intro mult_strict_right_mono) simp_all
    ultimately have "rs ?y = of_int (rhe (?y / 2 ^ d)) * 2 ^ d"
      using False by (intro rs_big) (simp_all add: power_add)
    moreover have "?y / 2 ^ d = x * 2 ^ n" by (simp add: d power_add)
    ultimately show ?thesis by (simp add: fl_def d power_add)
  qed
qed

lemma fl_eval_up:
  assumes lo: "2 ^ 52 \<le> \<bar>x\<bar> / 2 ^ n" and hi: "\<bar>x\<bar> / 2 ^ n < 2 ^ 53"
  shows "fl x = of_int (rhe (x / 2 ^ n)) * 2 ^ n"
proof -
  let ?y = "x * 2 ^ bias"
  have y: "\<bar>?y\<bar> = \<bar>x\<bar> / 2 ^ n * 2 ^ (n + bias)" by (simp add: power_add abs_mult)
  have "2 ^ 52 * 2 ^ (n + bias) \<le> \<bar>?y\<bar>" unfolding y using lo by (intro mult_right_mono) simp_all
  moreover have "\<bar>?y\<bar> < 2 ^ 53 * 2 ^ (n + bias)" unfolding y using hi
    by (intro mult_strict_right_mono) simp_all
  moreover have "0 < n + bias" by (simp add: bias_def)
  ultimately have "rs ?y = of_int (rhe (?y / 2 ^ (n + bias))) * 2 ^ (n + bias)"
    by (intro rs_big) (simp_all add: power_add mult.assoc)
  moreover have "?y / 2 ^ (n + bias) = x / 2 ^ n" by (simp add: power_add)
  ultimately show ?thesis by (simp add: fl_def power_add)
qed

lemma rhe_eval: "of_int k - 1 / 2 < z \<Longrightarrow> z < of_int k + 1 / 2 \<Longrightarrow> rhe z = k"
proof -
  assume a: "of_int k - 1 / 2 < z" "z < of_int k + 1 / 2"
  show ?thesis
  proof (cases "of_int k \<le> z")
    case True
    with a have "\<lfloor>z\<rfloor> = k" by (intro floor_unique) simp_all
    with a show ?thesis by (simp add: rhe_def Let_def)
  next
    case False
    with a have f: "\<lfloor>z\<rfloor> = k - 1" by (intro floor_unique) simp_all
    with a show ?thesis by (simp add: rhe_def Let_def)
  qed
qed

lemma rhe_tie: "z = of_int k + 1 / 2 \<Longrightarrow> rhe z = (if even k then k else k + 1)"
proof -
  assume z: "z = of_int k + 1 / 2"
  then have "\<lfloor>z\<rfloor> = k" by (intro floor_unique) simp_all
  with z show ?thesis by (simp add: rhe_def Let_def)
qed

lemma pow2_double: "fl (2 ^ k) = 2 ^ k"
  using fl_exact_up[of 1 k] by simp

lemma fl_abs_le: "\<bar>x\<bar> \<le> 2 ^ k \<Longrightarrow> \<bar>fl x\<bar> \<le> 2 ^ k"
proof -
  assume a: "\<bar>x\<bar> \<le> 2 ^ k"
  have m: "fl (- (2 ^ k)) = - (2 ^ k)" by (simp add: fl_minus pow2_double)
  from a have "fl x \<le> 2 ^ k" by (intro fl_le pow2_double) simp
  moreover from a have "- (2 ^ k) \<le> fl x" by (intro fl_ge m) simp
  ultimately show ?thesis by simp
qed

lemma rnd_Num: "fl x = v \<Longrightarrow> \<bar>v\<bar> < 2 ^ 1024 \<Longrightarrow> rnd x = Num v"
  by (auto simp: rnd_def Let_def)

lemma rnd_small: "\<bar>x\<bar> \<le> 2 ^ 1023 \<Longrightarrow> rnd x = Num (fl x)"
proof -
  assume "\<bar>x\<bar> \<le> 2 ^ 1023"
  then have "\<bar>fl x\<bar> \<le> 2 ^ 1023" by (rule fl_abs_le)
  moreover have "(2::real) ^ 1023 < 2 ^ 1024" by (intro power_strict_increasing) simp_all
  ultimately show ?thesis by (intro rnd_Num) simp_all
qed

lemma rnd_down:
  assumes "n \<le> bias" "2 ^ 52 \<le> \<bar>x\<bar> * 2 ^ n" "\<bar>x\<bar> * 2 ^ n < 2 ^ 53"
    "rhe (x * 2 ^ n) = k"
  shows "rnd x = Num (of_int k / 2 ^ n)"
proof -
  have "1 * \<bar>x\<bar> \<le> 2 ^ n * \<bar>x\<bar>" by (intro mult_right_mono) simp_all
  with assms(3) have "\<bar>x\<bar> \<le> 2 ^ 53" by (simp add: mult.commute)
  also have "(2::real) ^ 53 \<le> 2 ^ 1023" by (intro power_increasing) simp_all
  finally have "rnd x = Num (fl x)" by (rule rnd_small)
  with fl_eval_down[OF assms(1-3)] assms(4) show ?thesis by simp
qed

lemma rnd_up:
  assumes "n \<le> 970" "2 ^ 52 \<le> \<bar>x\<bar> / 2 ^ n" "\<bar>x\<bar> / 2 ^ n < 2 ^ 53"
    "rhe (x / 2 ^ n) = k"
  shows "rnd x = Num (of_int k * 2 ^ n)"
proof -
  from assms(3) have "\<bar>x\<bar> < 2 ^ 53 * 2 ^ n" by (simp add: field_simps)
  also have "\<dots> = (2::real) ^ (53 + n)" by (simp add: power_add)
  also have "\<dots> \<le> 2 ^ 1023" using assms(1) by (intro power_increasing) simp_all
  finally have "rnd x = Num (fl x)" by (intro rnd_small) simp
  with fl_eval_up[OF assms(2,3)] assms(4) show ?thesis by simp
qed

lemma rnd_of_int: "\<bar>m\<bar> \<le> 2 ^ 53 \<Longrightarrow> rnd (of_int m) = Num (of_int m)"
proof -
  assume m: "\<bar>m\<bar> \<le> 2 ^ 53"
  then have "\<bar>real_of_int m\<bar> \<le> 2 ^ 53" by (metis of_int_abs of_int_le_iff of_int_numeral of_int_power)
  also have "(2::real) ^ 53 \<le> 2 ^ 1023" by (intro power_increasing) simp_all
  finally have "rnd (of_int m) = Num (fl (of_int m))" by (rule rnd_small)
  with fl_of_int[OF m] show ?thesis by simp
qed

lemma rnd_0 [simp]: "rnd 0 = Num 0"
  using rnd_of_int[of 0] by simp

lemma rnd_1 [simp]: "rnd 1 = Num 1"
  using rnd_of_int[of 1] by simp

lemma rnd_minus_1 [simp]: "rnd (- 1) = Num (- 1)"
  using rnd_of_int[of "- 1"] by simp

lemma rnd_numeral [simp]:
  "numeral k \<le> (9007199254740992::int) \<Longrightarrow> rnd (numeral k) = Num (numeral k)"
  using rnd_of_int[of "numeral k"] by simp

lemma rnd_neg_numeral [simp]:
  "numeral k \<le> (9007199254740992::int) \<Longrightarrow> rnd (- numeral k) = Num (- numeral k)"
  using rnd_of_int[of "- numeral k"] by simp

lemmas number_ops = sub_def gt_def le_def max2_def min2_def Math_min_def Math_max_def falsy_def
  infinity_def

lemmas eval_defs = generateLayout_def square_def rectangle_def pt_def isPointInPolygon_def
  intersect_def isRectValid_def corners_def CHAIR_DIMENSIONS_depth_def rowLoop.simps
  columnLoop.simps number_ops Let_def

lemma entry_simps [simp]:
  "tableWidth (entry w d) = Num w" "tableDepth (entry w d) = Num d" "enabled (entry w d) = None"
  by (simp_all add: entry_def)

lemmas test_defs = rectangle_def pt_def isPointInPolygon_def intersect_def isRectValid_def
  corners_def CHAIR_DIMENSIONS_depth_def number_ops Let_def

lemmas snap_eval = snapToRectilinear_def snapValues_def buildValueMap_def setGroup_def avg_def
  getOr_def sort_numbers_def chains_def pt_def number_ops Let_def

section \<open>Rounded results and the order\<close>

lemma isDouble_fl: "\<bar>fl x\<bar> < 2 ^ 1024 \<Longrightarrow> isDouble (fl x)"
  by (simp add: isDouble_def)

lemma rnd_cases: "rnd x = PosInf \<or> rnd x = NegInf \<or> (\<exists>v. rnd x = Num v \<and> isDouble v)"
  by (auto simp: rnd_def Let_def isDouble_def)

lemma isNumber_rnd [simp]: "isNumber (rnd x)"
  using rnd_cases[of x] by auto

lemma isDouble_of_int: "\<bar>m\<bar> \<le> 2 ^ 53 \<Longrightarrow> isDouble (of_int m)"
proof -
  assume m: "\<bar>m\<bar> \<le> 2 ^ 53"
  then have "\<bar>real_of_int m\<bar> \<le> 2 ^ 53"
    by (metis of_int_abs of_int_le_iff of_int_numeral of_int_power)
  also have "(2::real) ^ 53 < 2 ^ 1024" by (intro power_strict_increasing) simp_all
  finally show ?thesis using fl_of_int[OF m] by (simp add: isDouble_def)
qed

lemma isDouble_0 [simp]: "isDouble 0"
  using isDouble_of_int[of 0] by simp

lemma isDouble_numeral [simp]:
  "numeral k \<le> (9007199254740992::int) \<Longrightarrow> isDouble (numeral k)"
  using isDouble_of_int[of "numeral k"] by simp

lemma isDouble_neg_numeral [simp]:
  "numeral k \<le> (9007199254740992::int) \<Longrightarrow> isDouble (- numeral k)"
  using isDouble_of_int[of "- numeral k"] by simp

lemma rnd_le:
  assumes "x \<le> a" "isDouble a"
  shows "rnd x = NegInf \<or> (\<exists>v. rnd x = Num v \<and> v \<le> a \<and> isDouble v)"
proof -
  from assms have "fl x \<le> a" "a < 2 ^ 1024" by (auto simp: isDouble_def intro: fl_le)
  then show ?thesis by (auto simp: rnd_def Let_def isDouble_def)
qed

lemma rnd_ge:
  assumes "a \<le> x" "isDouble a"
  shows "rnd x = PosInf \<or> (\<exists>v. rnd x = Num v \<and> a \<le> v \<and> isDouble v)"
proof -
  from assms have "a \<le> fl x" "- (2 ^ 1024) < a" by (auto simp: isDouble_def intro: fl_ge)
  then show ?thesis by (auto simp: rnd_def Let_def isDouble_def)
qed

section \<open>The order of numbers\<close>

lemma lt_lt: "lt a b \<Longrightarrow> lt b c \<Longrightarrow> lt a c"
  by (cases a; cases b; cases c; simp)

lemma lt_le: "lt a b \<Longrightarrow> le b c \<Longrightarrow> lt a c"
  by (cases a; cases b; cases c; simp add: le_def)

lemma le_lt: "le a b \<Longrightarrow> lt b c \<Longrightarrow> lt a c"
  by (cases a; cases b; cases c; simp add: le_def)

lemma le_le: "le a b \<Longrightarrow> le b c \<Longrightarrow> le a c"
  by (cases a; cases b; cases c; simp add: le_def)

lemma le_refl: "a \<noteq> NaN \<Longrightarrow> le a a"
  by (cases a; simp add: le_def)

lemma lt_imp_le: "lt a b \<Longrightarrow> le a b"
  by (cases a; cases b; simp add: le_def)

lemma lt_not_NaN: "lt a b \<Longrightarrow> a \<noteq> NaN \<and> b \<noteq> NaN"
  by (cases a; cases b; simp)

lemma le_not_NaN: "le a b \<Longrightarrow> a \<noteq> NaN \<and> b \<noteq> NaN"
  by (simp add: le_def)

lemma le_Num [simp]: "le (Num a) (Num b) \<longleftrightarrow> a \<le> b"
  by (auto simp: le_def)

lemma le_PosInf [simp]: "le a PosInf \<longleftrightarrow> a \<noteq> NaN"
  by (cases a; simp add: le_def)

lemma NegInf_le [simp]: "le NegInf a \<longleftrightarrow> a \<noteq> NaN"
  by (cases a; simp add: le_def)

lemma rnd_not_NaN [simp]: "rnd x \<noteq> NaN"
  using rnd_cases[of x] by auto

lemma rnd_mono: "x \<le> y \<Longrightarrow> le (rnd x) (rnd y)"
proof -
  assume "x \<le> y"
  then have "fl x \<le> fl y" by (rule fl_mono)
  then show ?thesis by (auto simp: rnd_def Let_def le_def)
qed

lemma add_Num_not_NaN: "b \<noteq> NaN \<Longrightarrow> add (Num x) b \<noteq> NaN"
  by (cases b) simp_all

lemma add_Num_result: "add (Num x) b = Num v \<Longrightarrow> isDouble v"
  using rnd_cases by (cases b) (auto, metis number.distinct(1,3) number.inject)

lemma add_right_mono: "le b c \<Longrightarrow> le (add (Num x) b) (add (Num x) c)"
  by (cases b; cases c; simp add: rnd_mono) (simp_all add: le_def)

lemma add_increases:
  assumes "isDouble x" "le (Num 0) b"
  shows "le (Num x) (add (Num x) b)"
proof (cases b)
  case (Num r)
  with assms(2) have "x \<le> x + r" by simp
  from rnd_ge[OF this assms(1)] Num show ?thesis by auto
qed (use assms(2) in \<open>simp_all add: le_def\<close>)

lemma add_ge_right:
  assumes "le (Num 0) a" "isNumber b" "b \<noteq> NaN" "b \<noteq> NegInf"
  shows "le b (add a b)"
proof (cases a)
  case a: (Num r)
  show ?thesis
  proof (cases b)
    case (Num v)
    with assms(1,2) a have "v \<le> r + v" "isDouble v" by simp_all
    from rnd_ge[OF this] a Num show ?thesis by auto
  qed (use assms a in simp_all)
next
  case PosInf
  with assms show ?thesis by (cases b) simp_all
qed (use assms(1) in \<open>simp_all add: le_def\<close>)

lemma mul_nonneg: "0 \<le> a \<Longrightarrow> 0 \<le> b \<Longrightarrow> le (Num 0) (mul (Num a) (Num b))"
  using rnd_mono[of 0 "a * b"] by simp

lemma mul_mono: "a \<le> b \<Longrightarrow> 0 \<le> s \<Longrightarrow> le (mul (Num a) (Num s)) (mul (Num b) (Num s))"
  by (simp add: rnd_mono mult_right_mono)

lemma isNumber_mul_Num [simp]: "isNumber (mul (Num a) (Num b))"
  by simp

lemma rnd_nonneg:
  "0 \<le> x \<Longrightarrow> rnd x = PosInf \<or> (\<exists>v. rnd x = Num v \<and> 0 \<le> v \<and> isDouble v)"
  using rnd_ge[of 0 x] by simp

lemma isNumber_add: "isNumber a \<Longrightarrow> isNumber b \<Longrightarrow> isNumber (add a b)"
  by (cases a; cases b) simp_all

lemma add_ge_left:
  assumes "le (Num 0) b" "isNumber a" "a \<noteq> NaN" "a \<noteq> NegInf"
  shows "le a (add a b)"
proof (cases b)
  case b: (Num r)
  show ?thesis
  proof (cases a)
    case (Num v)
    with assms(1,2) b have "v \<le> v + r" "isDouble v" by simp_all
    from rnd_ge[OF this] b Num show ?thesis by auto
  qed (use assms b in simp_all)
next
  case PosInf
  with assms show ?thesis by (cases a) simp_all
qed (use assms(1) in \<open>simp_all add: le_def\<close>)

section \<open>Invariant rules for the two loops\<close>

lemma columnLoop_inv:
  assumes run: "columnLoop uuid polygon holes scale fts maxX currentY cx0 rh0 items0 = Some r"
    and init: "I cx0 rh0 items0"
    and place: "\<And>cx rh items fType. I cx rh items \<Longrightarrow> lt cx maxX \<Longrightarrow>
        firstFit polygon holes scale cx currentY fts = Some fType \<Longrightarrow>
        I (add cx (add (mul (tableWidth fType) scale) (mul (Num 50) scale)))
          (max2 rh (add (mul (tableDepth fType) scale) (mul CHAIR_DIMENSIONS_depth scale)))
          (items @ [\<lparr>item_id = uuid (length items), item_x = cx, item_y = currentY,
                      rotation = Num 0, item_type = fType\<rparr>])"
    and skip: "\<And>cx rh items. I cx rh items \<Longrightarrow> lt cx maxX \<Longrightarrow>
        firstFit polygon holes scale cx currentY fts = None \<Longrightarrow> I (add cx (mul (Num 50) scale)) rh items"
  shows "\<exists>cx. \<not> lt cx maxX \<and> I cx (fst r) (snd r)"
proof -
  let ?P = "\<lambda>u p h s ft m y x rh its r.
      u = uuid \<and> p = polygon \<and> h = holes \<and> s = scale \<and> ft = fts \<and> m = maxX \<and> y = currentY
      \<longrightarrow> I x rh its \<longrightarrow> (\<exists>cx. \<not> lt cx maxX \<and> I cx (fst r) (snd r))"
  have "?P uuid polygon holes scale fts maxX currentY cx0 rh0 items0 r"
    apply (rule columnLoop.raw_induct[where P = ?P, OF _ run])
    subgoal premises prems for f u p h s ft m y x rh its r
    proof (intro impI, elim conjE)
      assume e: "u = uuid" "p = polygon" "h = holes" "s = scale" "ft = fts" "m = maxX"
        "y = currentY" and i: "I x rh its"
      show "\<exists>cx. \<not> lt cx maxX \<and> I cx (fst r) (snd r)"
      proof (cases "lt x maxX")
        case False
        with prems(2) e i show ?thesis by auto
      next
        case True
        show ?thesis
        proof (cases "firstFit polygon holes scale x currentY fts")
          case None
          with True prems(2) e have "f uuid polygon holes scale fts maxX currentY
              (add x (mul (Num 50) scale)) rh its = Some r" by simp
          from prems(1)[OF this] skip[OF i True None] show ?thesis by simp
        next
          case (Some fType)
          with True prems(2) e have "f uuid polygon holes scale fts maxX currentY
               (add x (add (mul (tableWidth fType) scale) (mul (Num 50) scale)))
               (max2 rh (add (mul (tableDepth fType) scale) (mul CHAIR_DIMENSIONS_depth scale)))
               (its @ [\<lparr>item_id = uuid (length its), item_x = x, item_y = currentY,
                      rotation = Num 0, item_type = fType\<rparr>]) = Some r" by simp
          from prems(1)[OF this] place[OF i True Some] show ?thesis by simp
        qed
      qed
    qed
    done
  with init show ?thesis by simp
qed

lemma rowLoop_inv:
  assumes run: "rowLoop uuid polygon holes scale fts minX maxX maxY gap cy0 items0 = Some r"
    and init: "I cy0 items0"
    and step: "\<And>cy items rh items'. I cy items \<Longrightarrow> lt cy maxY \<Longrightarrow>
        columnLoop uuid polygon holes scale fts maxX cy (add minX gap) (Num 0) items = Some (rh, items') \<Longrightarrow>
        I (if gt rh (Num 0) then add cy (add rh gap) else add cy (mul (Num 100) scale)) items'"
  shows "\<exists>cy. \<not> lt cy maxY \<and> I cy r"
proof -
  let ?P = "\<lambda>u p h s ft mx m my g y its r.
      u = uuid \<and> p = polygon \<and> h = holes \<and> s = scale \<and> ft = fts \<and> mx = minX \<and> m = maxX
      \<and> my = maxY \<and> g = gap
      \<longrightarrow> I y its \<longrightarrow> (\<exists>cy. \<not> lt cy maxY \<and> I cy r)"
  have "?P uuid polygon holes scale fts minX maxX maxY gap cy0 items0 r"
    apply (rule rowLoop.raw_induct[where P = ?P, OF _ run])
    subgoal premises prems for f u p h s ft mx m my g y its r
    proof (intro impI, elim conjE)
      assume e: "u = uuid" "p = polygon" "h = holes" "s = scale" "ft = fts" "mx = minX"
        "m = maxX" "my = maxY" "g = gap" and i: "I y its"
      show "\<exists>cy. \<not> lt cy maxY \<and> I cy r"
      proof (cases "lt y maxY")
        case False
        with prems(2) e i show ?thesis by auto
      next
        case True
        with prems(2) e obtain rh items' where
          col: "columnLoop uuid polygon holes scale fts maxX y (add minX gap) (Num 0) its
                = Some (rh, items')"
          by (auto split: option.splits)
        from True prems(2) e col have
          "f uuid polygon holes scale fts minX maxX maxY gap
             (if gt rh (Num 0) then add y (add rh gap) else add y (mul (Num 100) scale)) items' = Some r"
          by (simp split: if_splits)
        from prems(1)[OF this] step[OF i True col] show ?thesis by simp
      qed
    qed
    done
  with init show ?thesis by simp
qed


section \<open>Containment of the emitted items\<close>

lemma firstFit_Some:
  "firstFit polygon holes scale currentX currentY fts = Some fType \<Longrightarrow>
   fType \<in> set fts \<and> enabled fType \<noteq> Some False \<and>
   isRectValid currentX currentY (mul (tableWidth fType) scale)
     (add (mul (tableDepth fType) scale) (mul CHAIR_DIMENSIONS_depth scale)) polygon holes"
  by (induction fts) (auto simp: Let_def split: if_splits)

lemma columnLoop_itemValid:
  assumes "columnLoop uuid polygon holes scale fts maxX currentY cx rh items = Some r"
    and "\<forall>i \<in> set items. itemValid polygon holes scale i"
  shows "\<forall>i \<in> set (snd r). itemValid polygon holes scale i"
proof -
  have "\<exists>cx. \<not> lt cx maxX \<and> (\<forall>i \<in> set (snd r). itemValid polygon holes scale i)"
    by (rule columnLoop_inv[where I = "\<lambda>cx rh items. \<forall>i \<in> set items. itemValid polygon holes scale i",
          OF assms])
      (auto simp: itemValid_def dest: firstFit_Some)
  then show ?thesis by simp
qed

lemma rowLoop_itemValid:
  assumes "rowLoop uuid polygon holes scale fts minX maxX maxY gap cy items = Some r"
    and "\<forall>i \<in> set items. itemValid polygon holes scale i"
  shows "\<forall>i \<in> set r. itemValid polygon holes scale i"
proof -
  have "\<exists>cy. \<not> lt cy maxY \<and> (\<forall>i \<in> set r. itemValid polygon holes scale i)"
    by (rule rowLoop_inv[where I = "\<lambda>cy items. \<forall>i \<in> set items. itemValid polygon holes scale i",
          OF assms])
      (use columnLoop_itemValid in fastforce)
  then show ?thesis by simp
qed

lemma generateLayout_itemValid:
  assumes "generateLayout uuid polygon holes scale pattern fts aisleGap = Some items"
  shows "\<forall>i \<in> set items. itemValid polygon holes scale i"
proof -
  from assms have "rowLoop uuid polygon holes scale fts (Math_min (map px polygon))
      (Math_max (map px polygon)) (Math_max (map py polygon)) (mul aisleGap scale)
      (add (Math_min (map py polygon)) (mul aisleGap scale)) [] = Some items"
    by (simp add: generateLayout_def Let_def)
  from rowLoop_itemValid[OF this] show ?thesis by simp
qed

section \<open>The identifiers drawn\<close>

lemma columnLoop_uuid:
  assumes run: "columnLoop uuid polygon holes scale fts maxX cy cx0 rh0 items0 = Some r"
  shows "length items0 \<le> length (snd r) \<and>
     (\<forall>uuid'. (\<forall>k. length items0 \<le> k \<and> k < length (snd r) \<longrightarrow> uuid' k = uuid k) \<longrightarrow>
        columnLoop uuid' polygon holes scale fts maxX cy cx0 rh0 items0 = Some r)"
proof -
  let ?P = "\<lambda>u p h s ft m y x rh its r.
      length its \<le> length (snd r) \<and>
      (\<forall>u'. (\<forall>k. length its \<le> k \<and> k < length (snd r) \<longrightarrow> u' k = u k) \<longrightarrow>
        columnLoop u' p h s ft m y x rh its = Some r)"
  show ?thesis
    apply (rule columnLoop.raw_induct[where P = ?P, OF _ run])
    subgoal premises prems for f u p h s ft m y x rh its r
    proof (cases "lt x m")
      case False
      with prems(2) have "r = (rh, its)" by simp
      with False show ?thesis by (subst columnLoop.simps) simp
    next
      case True
      show ?thesis
      proof (cases "firstFit p h s x y ft")
        case None
        with True prems(2) have "f u p h s ft m y (add x (mul (Num 50) s)) rh its = Some r" by simp
        from prems(1)[OF this] None True show ?thesis
          by (subst columnLoop.simps) simp
      next
        case (Some fType)
        let ?item = "\<lambda>u. \<lparr>item_id = u (length its), item_x = x, item_y = y,
                            rotation = Num 0, item_type = fType\<rparr>"
        from Some True prems(2) have "f u p h s ft m y
               (add x (add (mul (tableWidth fType) s) (mul (Num 50) s)))
               (max2 rh (add (mul (tableDepth fType) s) (mul CHAIR_DIMENSIONS_depth s)))
               (its @ [?item u]) = Some r" by simp
        from prems(1)[OF this] have
          len: "length its < length (snd r)" and
          ih: "\<And>u'. (\<forall>k. Suc (length its) \<le> k \<and> k < length (snd r) \<longrightarrow> u' k = u k) \<Longrightarrow>
              columnLoop u' p h s ft m y
               (add x (add (mul (tableWidth fType) s) (mul (Num 50) s)))
               (max2 rh (add (mul (tableDepth fType) s) (mul CHAIR_DIMENSIONS_depth s)))
               (its @ [?item u]) = Some r"
          by simp_all
        have "columnLoop u' p h s ft m y x rh its = Some r"
          if a: "\<forall>k. length its \<le> k \<and> k < length (snd r) \<longrightarrow> u' k = u k" for u'
        proof -
          from a len have "u' (length its) = u (length its)" by simp
          then have "?item u' = ?item u" by simp
          moreover from a have "columnLoop u' p h s ft m y
               (add x (add (mul (tableWidth fType) s) (mul (Num 50) s)))
               (max2 rh (add (mul (tableDepth fType) s) (mul CHAIR_DIMENSIONS_depth s)))
               (its @ [?item u]) = Some r" by (intro ih) simp
          ultimately show ?thesis using Some True
            by (subst columnLoop.simps) simp
        qed
        with len show ?thesis by simp
      qed
    qed
    done
qed

lemma rowLoop_uuid:
  assumes run: "rowLoop uuid polygon holes scale fts minX maxX maxY gap cy0 items0 = Some r"
  shows "length items0 \<le> length r \<and>
     (\<forall>uuid'. (\<forall>k. length items0 \<le> k \<and> k < length r \<longrightarrow> uuid' k = uuid k) \<longrightarrow>
        rowLoop uuid' polygon holes scale fts minX maxX maxY gap cy0 items0 = Some r)"
proof -
  let ?P = "\<lambda>u p h s ft mx m my g y its r.
      length its \<le> length r \<and>
      (\<forall>u'. (\<forall>k. length its \<le> k \<and> k < length r \<longrightarrow> u' k = u k) \<longrightarrow>
        rowLoop u' p h s ft mx m my g y its = Some r)"
  show ?thesis
    apply (rule rowLoop.raw_induct[where P = ?P, OF _ run])
    subgoal premises prems for f u p h s ft mx m my g y its r
    proof (cases "lt y my")
      case False
      with prems(2) have "r = its" by simp
      with False show ?thesis by (subst rowLoop.simps) simp
    next
      case True
      with prems(2) obtain rh items' where
        col: "columnLoop u p h s ft m y (add mx g) (Num 0) its = Some (rh, items')"
        by (auto split: option.splits)
      let ?y' = "if gt rh (Num 0) then add y (add rh g) else add y (mul (Num 100) s)"
      from True prems(2) col have "f u p h s ft mx m my g ?y' items' = Some r"
        by (simp split: if_splits)
      from prems(1)[OF this] have
        len': "length items' \<le> length r" and
        ih: "\<And>u'. (\<forall>k. length items' \<le> k \<and> k < length r \<longrightarrow> u' k = u k) \<Longrightarrow>
              rowLoop u' p h s ft mx m my g ?y' items' = Some r"
        by simp_all
      from columnLoop_uuid[OF col] have
        len: "length its \<le> length items'" and
        c: "\<And>u'. (\<forall>k. length its \<le> k \<and> k < length items' \<longrightarrow> u' k = u k) \<Longrightarrow>
              columnLoop u' p h s ft m y (add mx g) (Num 0) its = Some (rh, items')"
        by simp_all
      have "rowLoop u' p h s ft mx m my g y its = Some r"
        if a: "\<forall>k. length its \<le> k \<and> k < length r \<longrightarrow> u' k = u k" for u'
      proof -
        from a len' have "columnLoop u' p h s ft m y (add mx g) (Num 0) its = Some (rh, items')"
          by (intro c) simp
        moreover from a len have "rowLoop u' p h s ft mx m my g ?y' items' = Some r"
          by (intro ih) simp
        ultimately show ?thesis using True
          by (subst rowLoop.simps) (simp split: if_splits)
      qed
      with len len' show ?thesis by simp
    qed
    done
qed

section \<open>Loops that never exit\<close>

lemma columnLoop_never_exits:
  assumes init: "I cx"
    and inside: "\<And>cx. I cx \<Longrightarrow> lt cx maxX"
    and place: "\<And>cx fType. I cx \<Longrightarrow> firstFit polygon holes scale cx cy fts = Some fType \<Longrightarrow>
        I (add cx (add (mul (tableWidth fType) scale) (mul (Num 50) scale)))"
    and skip: "\<And>cx. I cx \<Longrightarrow> firstFit polygon holes scale cx cy fts = None \<Longrightarrow>
        I (add cx (mul (Num 50) scale))"
  shows "columnLoop uuid polygon holes scale fts maxX cy cx rh items = None"
proof (rule ccontr)
  assume "columnLoop uuid polygon holes scale fts maxX cy cx rh items \<noteq> None"
  then obtain r where r: "columnLoop uuid polygon holes scale fts maxX cy cx rh items = Some r"
    by auto
  have "\<exists>cx'. \<not> lt cx' maxX \<and> I cx'"
    by (rule columnLoop_inv[where I = "\<lambda>cx' rh items. I cx'", OF r init]) (auto intro: place skip)
  with inside show False by auto
qed

lemma moves_left:
  assumes "cx = NegInf \<or> (\<exists>r. cx = Num r \<and> r \<le> a)" "isDouble a" "d \<le> 0"
  shows "add cx (Num d) = NegInf \<or> (\<exists>r. add cx (Num d) = Num r \<and> r \<le> a)"
proof (cases "cx = NegInf")
  case True
  then show ?thesis by simp
next
  case False
  with assms(1) obtain r where r: "cx = Num r" "r \<le> a" by auto
  with assms(3) have "r + d \<le> a" by simp
  from rnd_le[OF this assms(2)] r show ?thesis by auto
qed

section \<open>Polygons of fewer than two points\<close>

lemma isPointInPolygon_one: "length vs < 2 \<Longrightarrow> \<not> isPointInPolygon point vs"
proof (cases vs)
  case Nil
  then show ?thesis by (simp add: isPointInPolygon_def)
next
  case (Cons v ws)
  assume "length vs < 2"
  with Cons have "ws = []" by simp
  with Cons show ?thesis by (simp add: isPointInPolygon_def intersect_def)
qed

lemma not_lt_add:
  assumes "isNumber b" "\<not> lt g (Num 0)"
  shows "\<not> lt (add b g) b"
proof (cases b)
  case (Num v)
  with assms(1) have d: "isDouble v" by simp
  show ?thesis
  proof (cases g)
    case (Num r)
    with assms(2) have "v \<le> v + r" by simp
    from rnd_ge[OF this d] Num \<open>b = Num v\<close> show ?thesis by auto
  qed (use assms(2) in \<open>simp_all add: Num\<close>)
qed (use assms(2) in \<open>cases g; simp\<close>)+

lemma Math_min_single [simp]: "Math_min [b] = b"
  by (cases b) (simp_all add: Math_min_def min2_def)

lemma Math_max_single [simp]: "Math_max [b] = b"
  by (cases b) (simp_all add: Math_max_def max2_def)

lemma Math_min_Nil [simp]: "Math_min [] = PosInf"
  by (simp add: Math_min_def)

lemma Math_max_Nil [simp]: "Math_max [] = NegInf"
  by (simp add: Math_max_def)

lemma generateLayout_Nil:
  "generateLayout uuid [] holes scale pattern furnitureTypes aisleGap = Some []"
proof -
  have "\<not> lt (add PosInf g) NegInf" for g by (cases g) simp_all
  then show ?thesis by (simp add: generateLayout_def Let_def rowLoop.simps)
qed

lemma generateLayout_single:
  assumes "isNumber (py p)" "\<not> lt (mul aisleGap scale) (Num 0)"
  shows "generateLayout uuid [p] holes scale pattern furnitureTypes aisleGap = Some []"
  using not_lt_add[OF assms] by (simp add: generateLayout_def Let_def rowLoop.simps)

lemma generateLayout_short_empty:
  assumes "length points < 2"
    and "generateLayout uuid points holes scale pattern furnitureTypes aisleGap = Some items"
  shows "items = []"
proof (rule ccontr)
  assume "items \<noteq> []"
  then obtain i where i: "i \<in> set items" by (cases items) auto
  with generateLayout_itemValid[OF assms(2)] have "itemValid points holes scale i" by blast
  then have "isPointInPolygon \<lparr>px = item_x i, py = item_y i\<rparr> points"
    by (auto simp: itemValid_def isRectValid_def corners_def split: if_splits)
  with isPointInPolygon_one[OF assms(1)] show False by blast
qed

section \<open>Termination of the loops\<close>

lemma ceiling_measure_decreases:
  fixes a a' m d :: real
  assumes "0 < d" "a < m" "a + d \<le> a'"
  shows "nat \<lceil>(m - a') / d\<rceil> < nat \<lceil>(m - a) / d\<rceil>"
proof -
  have "(m - a') / d \<le> (m - a - d) / d"
    using assms by (intro divide_right_mono) auto
  also have "\<dots> = (m - a) / d - 1"
    using assms by (simp add: diff_divide_distrib)
  finally have "(m - a') / d \<le> (m - a) / d - 1" .
  then have "\<lceil>(m - a') / d\<rceil> \<le> \<lceil>(m - a) / d - 1\<rceil>" by (rule ceiling_mono)
  also have "\<dots> = \<lceil>(m - a) / d\<rceil> - 1" by simp
  finally have 1: "\<lceil>(m - a') / d\<rceil> < \<lceil>(m - a) / d\<rceil>" by simp
  have "0 < (m - a) / d" using assms by simp
  then have "0 < \<lceil>(m - a) / d\<rceil>" by simp
  with 1 show ?thesis by simp
qed

text \<open>Two binary64 values differ by at least the least positive binary64 value.\<close>

lemma double_gap:
  assumes "isDouble x" "isDouble x'" "x < x'"
  shows "x + 1 / 2 ^ bias \<le> x'"
proof -
  from assms(1) fl_grid[of x] obtain k :: int where k: "x * 2 ^ bias = of_int k"
    by (auto simp: isDouble_def)
  from assms(2) fl_grid[of x'] obtain k' :: int where k': "x' * 2 ^ bias = of_int k'"
    by (auto simp: isDouble_def)
  from assms(3) have "x * 2 ^ bias < x' * 2 ^ bias" by simp
  with k k' have "k < k'" by simp
  then have "real_of_int k + 1 \<le> of_int k'" by linarith
  with k k' have "x * 2 ^ bias + 1 \<le> x' * 2 ^ bias" by simp
  then have "(x * 2 ^ bias + 1) / 2 ^ bias \<le> x' * 2 ^ bias / 2 ^ bias"
    by (rule divide_right_mono) simp
  then show ?thesis by (simp add: add_divide_distrib)
qed

lemma remaining_decreases:
  assumes x: "isDouble x" "x < M" and adv: "lt (Num x) (add (Num x) e)"
  shows "remaining M (add (Num x) e) < remaining M (Num x)"
    and "add (Num x) e = PosInf \<or> (\<exists>x'. add (Num x) e = Num x' \<and> isDouble x' \<and> x \<le> x')"
proof -
  have pos: "0 < remaining M (Num x)"
    using x(2) by (simp add: remaining_def)
  have d: "(0::real) < 1 / 2 ^ bias" by simp
  show "remaining M (add (Num x) e) < remaining M (Num x)"
  proof (cases "add (Num x) e")
    case (Num x')
    with adv have lt: "x < x'" by simp
    from Num have "isDouble x'" by (rule add_Num_result)
    from double_gap[OF x(1) this lt] have "x + 1 / 2 ^ bias \<le> x'" .
    from ceiling_measure_decreases[OF d x(2) this] Num show ?thesis
      by (simp add: remaining_def)
  qed (use pos in \<open>simp_all add: remaining_def\<close>)
  show "add (Num x) e = PosInf \<or> (\<exists>x'. add (Num x) e = Num x' \<and> isDouble x' \<and> x \<le> x')"
  proof (cases "add (Num x) e")
    case (Num x')
    with adv add_Num_result[OF Num] show ?thesis by simp
  qed (use adv in simp_all)
qed

lemma columnLoop_terminates:
  assumes skip: "\<And>x. isDouble x \<Longrightarrow> lo \<le> x \<Longrightarrow> x < M \<Longrightarrow>
        firstFit polygon holes scale (Num x) cy fts = None \<Longrightarrow>
        lt (Num x) (add (Num x) (mul (Num 50) scale))"
    and place: "\<And>x fType. isDouble x \<Longrightarrow> lo \<le> x \<Longrightarrow> x < M \<Longrightarrow>
        firstFit polygon holes scale (Num x) cy fts = Some fType \<Longrightarrow>
        lt (Num x) (add (Num x) (add (mul (tableWidth fType) scale) (mul (Num 50) scale)))"
    and start: "cx = PosInf \<or> (\<exists>x. cx = Num x \<and> isDouble x \<and> lo \<le> x)"
  shows "\<exists>r. columnLoop uuid polygon holes scale fts (Num M) cy cx rh items = Some r"
  using start
proof (induction "remaining M cx" arbitrary: cx rh items rule: less_induct)
  case less
  show ?case
  proof (cases "lt cx (Num M)")
    case False
    then show ?thesis by (subst columnLoop.simps) simp
  next
    case True
    with less.prems obtain x where x: "cx = Num x" "isDouble x" "lo \<le> x" "x < M" by auto
    show ?thesis
    proof (cases "firstFit polygon holes scale cx cy fts")
      case None
      let ?c = "add (Num x) (mul (Num 50) scale)"
      from None x have adv: "lt (Num x) ?c" by (intro skip) simp_all
      from remaining_decreases[OF x(2,4) adv] x(3)
      have "remaining M ?c < remaining M cx"
        "?c = PosInf \<or> (\<exists>x'. ?c = Num x' \<and> isDouble x' \<and> lo \<le> x')"
        by (auto simp: x(1))
      from less.hyps[OF this] None True x(1) show ?thesis
        by (subst columnLoop.simps) simp
    next
      case (Some fType)
      let ?c = "add (Num x) (add (mul (tableWidth fType) scale) (mul (Num 50) scale))"
      from Some x have adv: "lt (Num x) ?c" by (intro place) simp_all
      from remaining_decreases[OF x(2,4) adv] x(3)
      have "remaining M ?c < remaining M cx"
        "?c = PosInf \<or> (\<exists>x'. ?c = Num x' \<and> isDouble x' \<and> lo \<le> x')"
        by (auto simp: x(1))
      from less.hyps[OF this] Some True x(1) show ?thesis
        by (subst columnLoop.simps) simp
    qed
  qed
qed

lemma rowLoop_terminates:
  assumes col: "\<And>cy items.
        \<exists>r. columnLoop uuid polygon holes scale fts maxX cy (add minX gap) (Num 0) items = Some r"
    and adv: "\<And>y items rh items'. isDouble y \<Longrightarrow> lo \<le> y \<Longrightarrow> y < M \<Longrightarrow>
        columnLoop uuid polygon holes scale fts maxX (Num y) (add minX gap) (Num 0) items
          = Some (rh, items') \<Longrightarrow>
        lt (Num y) (add (Num y) (if gt rh (Num 0) then add rh gap else mul (Num 100) scale))"
    and start: "cy = PosInf \<or> (\<exists>y. cy = Num y \<and> isDouble y \<and> lo \<le> y)"
  shows "\<exists>r. rowLoop uuid polygon holes scale fts minX maxX (Num M) gap cy items = Some r"
  using start
proof (induction "remaining M cy" arbitrary: cy items rule: less_induct)
  case less
  show ?case
  proof (cases "lt cy (Num M)")
    case False
    then show ?thesis by (subst rowLoop.simps) simp
  next
    case True
    with less.prems obtain y where y: "cy = Num y" "isDouble y" "lo \<le> y" "y < M" by auto
    from col obtain rh items' where
      c: "columnLoop uuid polygon holes scale fts maxX cy (add minX gap) (Num 0) items
          = Some (rh, items')"
      by fastforce
    let ?c = "add (Num y) (if gt rh (Num 0) then add rh gap else mul (Num 100) scale)"
    from c y have a: "lt (Num y) ?c" by (intro adv) simp_all
    from remaining_decreases[OF y(2,4) a] y(3)
    have "remaining M ?c < remaining M cy"
      "?c = PosInf \<or> (\<exists>y'. ?c = Num y' \<and> isDouble y' \<and> lo \<le> y')"
      by (auto simp: y(1))
    from less.hyps[OF this] obtain r where
      "rowLoop uuid polygon holes scale fts minX maxX (Num M) gap ?c items' = Some r" by blast
    with c True y(1) show ?thesis
      by (subst rowLoop.simps) (auto split: if_splits)
  qed
qed

section \<open>Termination of the sweep\<close>

lemma fold_min2_in:
  "\<forall>v \<in> set vs. v \<noteq> NaN \<Longrightarrow> m \<noteq> NaN \<Longrightarrow> fold (\<lambda>v m. min2 m v) vs m \<in> insert m (set vs)"
  by (induction vs arbitrary: m) (auto simp: min2_def)

lemma fold_max2_in:
  "\<forall>v \<in> set vs. v \<noteq> NaN \<Longrightarrow> m \<noteq> NaN \<Longrightarrow> fold (\<lambda>v m. max2 m v) vs m \<in> insert m (set vs)"
  by (induction vs arbitrary: m) (auto simp: max2_def)

lemma finite_number_cases: "finite_number v \<longleftrightarrow> (\<exists>x. v = Num x \<and> isDouble x)"
  by (cases v) simp_all

lemma Math_min_in:
  assumes "vs \<noteq> []" "\<forall>v \<in> set vs. finite_number v"
  shows "Math_min vs \<in> set vs"
proof -
  from assms obtain v ws where vs: "vs = v # ws" by (cases vs) auto
  with assms(2) have n: "\<forall>v \<in> set ws. v \<noteq> NaN" "v \<noteq> NaN" by auto
  from assms(2) vs have "min2 PosInf v = v" by (cases v) (simp_all add: min2_def)
  with fold_min2_in[OF n] show ?thesis by (simp add: Math_min_def vs)
qed

lemma Math_max_in:
  assumes "vs \<noteq> []" "\<forall>v \<in> set vs. finite_number v"
  shows "Math_max vs \<in> set vs"
proof -
  from assms obtain v ws where vs: "vs = v # ws" by (cases vs) auto
  with assms(2) have n: "\<forall>v \<in> set ws. v \<noteq> NaN" "v \<noteq> NaN" by auto
  from assms(2) vs have "max2 NegInf v = v" by (cases v) (simp_all add: max2_def)
  with fold_max2_in[OF n] show ?thesis by (simp add: Math_max_def vs)
qed

lemma isNumber_footprintH:
  "tableDepth f = Num d \<Longrightarrow> isNumber (footprintH (Num s) f)"
  by (simp add: footprintH_def CHAIR_DIMENSIONS_depth_def isNumber_add)

lemma columnLoop_rowHeight:
  assumes "columnLoop uuid polygon holes scale fts maxX cy cx (Num 0) items = Some r"
  shows "fst r = Num 0 \<or> fst r = NaN
         \<or> (\<exists>f \<in> set fts. enabled f \<noteq> Some False \<and> fst r = footprintH scale f)"
proof -
  let ?I = "\<lambda>rh. rh = Num 0 \<or> rh = NaN
      \<or> (\<exists>f \<in> set fts. enabled f \<noteq> Some False \<and> rh = footprintH scale f)"
  have "\<exists>cx. \<not> lt cx maxX \<and> ?I (fst r)"
  proof (rule columnLoop_inv[where I = "\<lambda>cx rh items. ?I rh", OF assms])
    fix cx rh items fType
    assume i: "?I rh" and "firstFit polygon holes scale cx cy fts = Some fType"
    with firstFit_Some[of polygon holes scale cx cy fts fType]
    have f: "fType \<in> set fts" "enabled fType \<noteq> Some False" by simp_all
    let ?h = "footprintH scale fType"
    have "max2 rh ?h = NaN \<or> max2 rh ?h = rh \<or> max2 rh ?h = ?h"
      by (simp add: max2_def)
    with f i show "?I (max2 rh (add (mul (tableDepth fType) scale) (mul CHAIR_DIMENSIONS_depth scale)))"
      unfolding footprintH_def by auto
  qed simp_all
  then show ?thesis by simp
qed

text \<open>
  The footprint height of an entry of non-negative depth, at a positive scale, is at
  least \<open>100 * scale\<close>.
\<close>

lemma footprintH_ge:
  assumes "0 < s" "0 \<le> d" "tableDepth f = Num d"
  shows "le (mul (Num 100) (Num s)) (footprintH (Num s) f)"
proof -
  have a: "le (Num 0) (mul (Num d) (Num s))" using assms by (intro mul_nonneg) simp_all
  have b: "le (mul (Num 100) (Num s)) (mul (Num 600) (Num s))"
    using assms(1) by (intro mul_mono) simp_all
  have "le (mul (Num 600) (Num s)) (add (mul (Num d) (Num s)) (mul (Num 600) (Num s)))"
    by (rule add_ge_right[OF a]) (use rnd_nonneg[of "600 * s"] assms(1) in auto)
  with b show ?thesis
    unfolding footprintH_def assms(3) CHAIR_DIMENSIONS_depth_def by (rule le_le)
qed

lemma generateLayout_returns:
  assumes sc: "0 < s" and gap: "0 \<le> g"
    and poly: "\<forall>p \<in> set polygon. finite_number (px p) \<and> finite_number (py p)"
    and fts: "\<forall>f \<in> set fts. enabled f \<noteq> Some False \<longrightarrow>
        (\<exists>w d. tableWidth f = Num w \<and> 0 \<le> w \<and> tableDepth f = Num d \<and> 0 \<le> d)"
    and colstep: "\<forall>x. isDouble x \<and> le (Math_min (map px polygon)) (Num x)
        \<and> lt (Num x) (Math_max (map px polygon))
        \<longrightarrow> lt (Num x) (add (Num x) (mul (Num 50) (Num s)))"
    and rowstep: "\<forall>y. isDouble y \<and> le (Math_min (map py polygon)) (Num y)
        \<and> lt (Num y) (Math_max (map py polygon))
        \<longrightarrow> lt (Num y) (add (Num y) (mul (Num 100) (Num s)))"
  shows "\<exists>items. generateLayout uuid polygon holes (Num s) pattern fts (Num g) = Some items"
proof (cases "polygon = []")
  case True
  then show ?thesis by (simp add: generateLayout_Nil)
next
  case False
  let ?sc = "Num s"
  have fx: "\<forall>v \<in> set (map px polygon). finite_number v"
    and fy: "\<forall>v \<in> set (map py polygon). finite_number v" using poly by auto
  from False have ne: "map px polygon \<noteq> []" "map py polygon \<noteq> []" by auto
  from Math_min_in[OF ne(1) fx] fx obtain x0 where
    x0: "Math_min (map px polygon) = Num x0" "isDouble x0" by (auto simp: finite_number_cases)
  from Math_max_in[OF ne(1) fx] fx obtain x1 where
    x1: "Math_max (map px polygon) = Num x1" "isDouble x1" by (auto simp: finite_number_cases)
  from Math_min_in[OF ne(2) fy] fy obtain y0 where
    y0: "Math_min (map py polygon) = Num y0" "isDouble y0" by (auto simp: finite_number_cases)
  from Math_max_in[OF ne(2) fy] fy obtain y1 where
    y1: "Math_max (map py polygon) = Num y1" "isDouble y1" by (auto simp: finite_number_cases)
  let ?gap = "mul (Num g) ?sc"
  have gap0: "le (Num 0) ?gap" using sc gap by (intro mul_nonneg) simp_all
  have d50: "le (Num 0) (mul (Num 50) ?sc)" using sc by (intro mul_nonneg) simp_all
  have start: "c = PosInf \<or> (\<exists>x. c = Num x \<and> isDouble x \<and> a \<le> x)"
    if "c = add (Num a) ?gap" "isDouble a" for c a
  proof -
    from add_increases[OF that(2) gap0] have l: "le (Num a) c" by (simp add: that(1))
    show ?thesis
    proof (cases c)
      case (Num x)
      with that(1) have "add (Num a) ?gap = Num x" by simp
      from add_Num_result[OF this] l Num show ?thesis by simp
    qed (use l in \<open>simp_all add: le_def\<close>)
  qed
  have col: "\<exists>r. columnLoop uuid polygon holes ?sc fts (Num x1) cy (add (Num x0) ?gap) rh items
      = Some r" for cy rh items
  proof (rule columnLoop_terminates[where lo = x0])
    fix x assume "isDouble x" "x0 \<le> x" "x < x1"
    with colstep x0 x1 show "lt (Num x) (add (Num x) (mul (Num 50) ?sc))" by simp
  next
    fix x fType
    assume x: "isDouble x" "x0 \<le> x" "x < x1"
      and "firstFit polygon holes ?sc (Num x) cy fts = Some fType"
    with firstFit_Some[of polygon holes ?sc "Num x" cy fts fType] fts
    obtain w where w: "tableWidth fType = Num w" "0 \<le> w" by blast
    have "le (Num 0) (mul (Num w) ?sc)" using sc w(2) by (intro mul_nonneg) simp_all
    then have "le (mul (Num 50) ?sc) (add (mul (Num w) ?sc) (mul (Num 50) ?sc))"
      by (rule add_ge_right) (use rnd_nonneg[of "50 * s"] sc in auto)
    then have "le (add (Num x) (mul (Num 50) ?sc))
                  (add (Num x) (add (mul (Num w) ?sc) (mul (Num 50) ?sc)))"
      by (rule add_right_mono)
    moreover from x colstep x0 x1 have "lt (Num x) (add (Num x) (mul (Num 50) ?sc))" by simp
    ultimately show "lt (Num x)
        (add (Num x) (add (mul (tableWidth fType) ?sc) (mul (Num 50) ?sc)))"
      unfolding w(1) by (rule lt_le[rotated])
  next
    show "add (Num x0) ?gap = PosInf \<or> (\<exists>x. add (Num x0) ?gap = Num x \<and> isDouble x \<and> x0 \<le> x)"
      by (rule start[OF refl x0(2)])
  qed
  have "\<exists>r. rowLoop uuid polygon holes ?sc fts (Num x0) (Num x1) (Num y1) ?gap
      (add (Num y0) ?gap) [] = Some r"
  proof (rule rowLoop_terminates[where lo = y0, OF col])
    fix y items rh items'
    assume y: "isDouble y" "y0 \<le> y" "y < y1"
      and c: "columnLoop uuid polygon holes ?sc fts (Num x1) (Num y) (add (Num x0) ?gap) (Num 0)
                items = Some (rh, items')"
    from y rowstep y0 y1 have r: "lt (Num y) (add (Num y) (mul (Num 100) ?sc))" by simp
    show "lt (Num y) (add (Num y) (if gt rh (Num 0) then add rh ?gap else mul (Num 100) ?sc))"
    proof (cases "gt rh (Num 0)")
      case False
      with r show ?thesis by simp
    next
      case True
      then have nz: "rh \<noteq> Num 0" "rh \<noteq> NaN" by (auto simp: gt_def)
      with columnLoop_rowHeight[OF c] obtain f where
        f: "f \<in> set fts" "enabled f \<noteq> Some False" "rh = footprintH ?sc f" by auto
      with fts obtain d where d: "tableDepth f = Num d" "0 \<le> d" by blast
      from footprintH_ge[OF sc d(2,1)] f(3) have h: "le (mul (Num 100) ?sc) rh" by simp
      have "isNumber rh" unfolding f(3) by (rule isNumber_footprintH[OF d(1)])
      moreover from True have "rh \<noteq> NegInf" by (auto simp: gt_def)
      ultimately have "le rh (add rh ?gap)" using nz(2) by (intro add_ge_left[OF gap0])
      with h have "le (mul (Num 100) ?sc) (add rh ?gap)" by (rule le_le)
      then have "le (add (Num y) (mul (Num 100) ?sc)) (add (Num y) (add rh ?gap))"
        by (rule add_right_mono)
      with r True show ?thesis by (simp add: lt_le)
    qed
  next
    show "add (Num y0) ?gap = PosInf \<or> (\<exists>y. add (Num y0) ?gap = Num y \<and> isDouble y \<and> y0 \<le> y)"
      by (rule start[OF refl y0(2)])
  qed
  then show ?thesis by (simp add: generateLayout_def Let_def x0 x1 y0 y1)
qed

text \<open>
  A step of at least 1 is not absorbed by a cursor between 0 and \<open>2 ^ 52\<close>: there is an
  integer strictly above the cursor and not above the exact sum.
\<close>

lemma no_absorption:
  assumes x: "isDouble x" "0 \<le> x" "x \<le> 2 ^ 52" and d: "1 \<le> d" "d \<le> 2 ^ 52"
  shows "lt (Num x) (add (Num x) (Num d))"
proof -
  let ?a = "\<lfloor>x\<rfloor> + 1"
  have "real_of_int \<lfloor>x\<rfloor> \<le> 2 ^ 52" using x(3) by linarith
  then have "\<lfloor>x\<rfloor> \<le> 2 ^ 52" by (metis of_int_le_iff of_int_numeral of_int_power)
  moreover have "0 \<le> \<lfloor>x\<rfloor>" using x(2) by simp
  ultimately have "\<bar>?a\<bar> \<le> 2 ^ 53" by simp
  then have a: "fl (of_int ?a) = of_int ?a" by (rule fl_of_int)
  have lt: "x < of_int ?a" by linarith
  have "of_int ?a \<le> x + d" using d(1) by linarith
  then have ge: "of_int ?a \<le> fl (x + d)" using a by (rule fl_ge)
  have "\<bar>x + d\<bar> \<le> 2 ^ 53" using x d by simp
  also have "(2::real) ^ 53 \<le> 2 ^ 1023" by (intro power_increasing) simp_all
  finally have "rnd (x + d) = Num (fl (x + d))" by (rule rnd_small)
  moreover from lt ge have "x < fl (x + d)" by (rule less_le_trans)
  ultimately show ?thesis by simp
qed

section \<open>The grouping loop of the normalizer\<close>








lemma sort_numbers_Nil [simp]: "sort_numbers vals = [] \<longleftrightarrow> vals = []"
  by (metis length_0_conv length_sort sort_numbers_def)


lemma snapValues_chains:
  "snapValues vals t = map (getOr (buildValueMap (chains vals t))) vals"
proof (cases "sort_numbers vals")
  case Nil
  then have "vals = []" by simp
  then show ?thesis by (simp add: snapValues_def sort_numbers_def chains_def)
next
  case (Cons s0 rest)
  then show ?thesis by (simp add: snapValues_def chains_def Let_def)
qed

section \<open>The value map\<close>












lemma length_snapValues [simp]: "length (snapValues vals t) = length vals"
  by (simp add: snapValues_chains)



section \<open>Rectangular rooms\<close>

lemma rnd_double [simp]: "isDouble x \<Longrightarrow> rnd x = Num x"
  by (simp add: isDouble_def rnd_Num)

lemma double_diff:
  assumes "isDouble a" "isDouble b" "0 \<le> a" "a \<le> b"
  shows "\<exists>v. rnd (b - a) = Num v \<and> 0 \<le> v \<and> (a < b \<longrightarrow> 0 < v)"
    and "\<exists>v. rnd (a - b) = Num v \<and> v \<le> 0 \<and> (a < b \<longrightarrow> v < 0)"
proof -
  have up: "b - a \<le> b" using assms(3) by simp
  from rnd_le[OF up assms(2)] rnd_ge[of 0 "b - a"] assms(4)
  obtain v where v: "rnd (b - a) = Num v" "0 \<le> v" by auto
  have "1 / 2 ^ bias \<le> (1::real)" by simp
  also have "(1::real) < 2 ^ 1024" by simp
  finally have "\<bar>1 / 2 ^ bias\<bar> < (2::real) ^ 1024" by simp
  moreover have "fl (1 / 2 ^ bias) = 1 / 2 ^ bias" using fl_exact_down[of 1 bias] by simp
  ultimately have d: "isDouble (1 / 2 ^ bias)" unfolding isDouble_def by blast
  have "0 < v" if "a < b"
  proof -
    from double_gap[OF assms(1,2) that] have "1 / 2 ^ bias \<le> b - a" by simp
    from rnd_ge[OF this d] v(1) have "1 / 2 ^ bias \<le> v" by auto
    moreover have "(0::real) < 1 / 2 ^ bias" by simp
    ultimately show ?thesis by linarith
  qed
  with v show "\<exists>v. rnd (b - a) = Num v \<and> 0 \<le> v \<and> (a < b \<longrightarrow> 0 < v)" by blast
  have "fl (a - b) = - fl (b - a)" using fl_minus[of "b - a"] by simp
  then have "rnd (a - b) = neg (rnd (b - a))"
    by (auto simp: rnd_def Let_def)
  with v \<open>a < b \<Longrightarrow> 0 < v\<close> show "\<exists>v. rnd (a - b) = Num v \<and> v \<le> 0 \<and> (a < b \<longrightarrow> v < 0)"
    by auto
qed

text \<open>The crossing test against a vertical edge at abscissa \<open>c\<close>.\<close>

lemma intersect_vertical:
  assumes c: "isDouble c" and ya: "isDouble ya" "0 \<le> ya" and yb: "isDouble yb" "0 \<le> yb"
    and p: "isNumber (py p)"
  shows "intersect p \<lparr>px = Num c, py = Num ya\<rparr> \<lparr>px = Num c, py = Num yb\<rparr>
         \<longleftrightarrow> gt (Num ya) (py p) \<noteq> gt (Num yb) (py p) \<and> lt (px p) (Num c)"
proof (cases "gt (Num ya) (py p) \<noteq> gt (Num yb) (py p)")
  case False
  then show ?thesis by (simp add: intersect_def)
next
  case True
  then obtain y where y: "py p = Num y" by (cases "py p") (auto simp: gt_def)
  with p have dy: "isDouble y" by simp
  from True y have between: "(y < ya \<and> yb \<le> y) \<or> (y < yb \<and> ya \<le> y)"
    by (auto simp: gt_def)
  then have y0: "0 \<le> y" using ya(2) yb(2) by auto
  have num: "\<exists>v. rnd (y - ya) = Num v"
  proof (cases "ya \<le> y")
    case True
    from double_diff(1)[OF ya(1) dy ya(2) True] show ?thesis by blast
  next
    case False
    then have "y \<le> ya" by simp
    from double_diff(2)[OF dy ya(1) y0 this] show ?thesis by blast
  qed
  have den: "\<exists>u. rnd (yb - ya) = Num u \<and> u \<noteq> 0"
  proof (cases "ya < yb")
    case True
    with double_diff(1)[OF ya(1) yb(1) ya(2)] show ?thesis by fastforce
  next
    case False
    with between have "yb < ya" by auto
    with double_diff(2)[OF yb(1) ya(1) yb(2)] show ?thesis by fastforce
  qed
  from num den c True show ?thesis
    by (auto simp: intersect_def sub_def y)
qed

lemma intersect_horizontal:
  "\<not> intersect p \<lparr>px = a, py = c\<rparr> \<lparr>px = b, py = c\<rparr>"
  by (simp add: intersect_def)

lemma isPointInPolygon_rectangle:
  assumes x: "isDouble x0" "isDouble x1" "x0 < x1"
    and y: "isDouble y0" "isDouble y1" "0 \<le> y0" "y0 < y1"
    and p: "isNumber (py p)"
  shows "isPointInPolygon p (rectangle x0 y0 x1 y1)
         \<longleftrightarrow> le (Num x0) (px p) \<and> lt (px p) (Num x1) \<and> le (Num y0) (py p) \<and> lt (py p) (Num y1)"
proof -
  have y1: "0 \<le> y1" using y by simp
  note v0 = intersect_vertical[OF x(1) y(1,3) y(2) y1 p]
  note v1 = intersect_vertical[OF x(2) y(2) y1 y(1,3) p]
  have "isPointInPolygon p (rectangle x0 y0 x1 y1) \<longleftrightarrow>
    (gt (Num y0) (py p) \<noteq> gt (Num y1) (py p)) \<and> (lt (px p) (Num x0) \<noteq> lt (px p) (Num x1))"
    by (auto simp: isPointInPolygon_def rectangle_def pt_def v0 v1 intersect_horizontal)
  also have "\<dots> \<longleftrightarrow> le (Num x0) (px p) \<and> lt (px p) (Num x1) \<and> le (Num y0) (py p)
      \<and> lt (py p) (Num y1)"
    using x(3) y(4) by (cases "px p"; cases "py p") (auto simp: gt_def le_def)
  finally show ?thesis .
qed


lemma isNumber_half: "isNumber w \<Longrightarrow> isNumber (divide_number w (Num 2))"
  by (cases w) (simp_all add: infinity_def)

lemma half_bounds:
  assumes "isNumber w" "le (Num 0) w"
  shows "le (Num 0) (divide_number w (Num 2))" "le (divide_number w (Num 2)) w"
proof -
  have "le (Num 0) (divide_number w (Num 2)) \<and> le (divide_number w (Num 2)) w"
  proof (cases w)
    case (Num r)
    with assms have r: "isDouble r" "0 \<le> r" by simp_all
    then have "0 \<le> r / 2" "r / 2 \<le> r" by simp_all
    from rnd_ge[OF this(1) isDouble_0] rnd_le[OF this(2) r(1)] Num show ?thesis by auto
  qed (use assms in \<open>simp_all add: infinity_def le_def\<close>)
  then show "le (Num 0) (divide_number w (Num 2))" "le (divide_number w (Num 2)) w" by simp_all
qed

text \<open>
  The five sample points of a footprint with non-negative width and height lie between
  its first and its third corner.
\<close>

lemma span:
  assumes c: "isDouble c" and a: "le (Num 0) a" and ab: "le a b"
    and lo: "lo \<le> c" and hi: "lt (add (Num c) b) (Num M)"
  shows "le (Num lo) (add (Num c) a)" "lt (add (Num c) a) (Num M)"
proof -
  from add_increases[OF c a] lo show "le (Num lo) (add (Num c) a)"
    by (cases "add (Num c) a") (simp_all add: le_def)
  from le_lt[OF add_right_mono[OF ab] hi] show "lt (add (Num c) a) (Num M)" .
qed

lemma isRectValid_rectangle:
  assumes x: "isDouble x0" "isDouble x1" "x0 < x1"
    and y: "isDouble y0" "isDouble y1" "0 \<le> y0" "y0 < y1"
    and c: "isNumber cx" "isNumber cy"
    and w: "isNumber w" "le (Num 0) w" and h: "isNumber h" "le (Num 0) h"
  shows "isRectValid cx cy w h (rectangle x0 y0 x1 y1) []
         \<longleftrightarrow> le (Num x0) cx \<and> lt (add cx w) (Num x1) \<and> le (Num y0) cy \<and> lt (add cy h) (Num y1)"
    (is "?L \<longleftrightarrow> ?R")
proof
  note pip = isPointInPolygon_rectangle[OF x y]
  have n: "isNumber (add cy h)" "isNumber (add cy (divide_number h (Num 2)))"
    using c h by (simp_all add: isNumber_add isNumber_half)
  {
    assume ?L
    then have "isPointInPolygon \<lparr>px = cx, py = cy\<rparr> (rectangle x0 y0 x1 y1)"
      and "isPointInPolygon \<lparr>px = add cx w, py = add cy h\<rparr> (rectangle x0 y0 x1 y1)"
      by (auto simp: isRectValid_def corners_def split: if_splits)
    then show ?R using c(2) n(1) by (simp add: pip)
  }
  {
    assume r: ?R
    then obtain vx where vx: "cx = Num vx" by (cases cx; cases w) (auto simp: le_def)
    from r obtain vy where vy: "cy = Num vy" by (cases cy; cases h) (auto simp: le_def)
    from c vx vy have d: "isDouble vx" "isDouble vy" by simp_all
    from r vx vy have lo: "x0 \<le> vx" "y0 \<le> vy" by simp_all
    from r vx vy have hi: "lt (add (Num vx) w) (Num x1)" "lt (add (Num vy) h) (Num y1)"
      by simp_all
    have z: "le (Num 0) (Num 0)" by simp
    note sx0 = span[OF d(1) z w(2) lo(1) hi(1)]
    note sxw = span[OF d(1) w(2) le_refl lo(1) hi(1)]
    note sxh = span[OF d(1) half_bounds[OF w] lo(1) hi(1)]
    note sy0 = span[OF d(2) z h(2) lo(2) hi(2)]
    note syh = span[OF d(2) h(2) le_refl lo(2) hi(2)]
    note syc = span[OF d(2) half_bounds[OF h] lo(2) hi(2)]
    have wn: "w \<noteq> NaN" "h \<noteq> NaN" using w(2) h(2) by (auto simp: le_def)
    have e: "add (Num vx) (Num 0) = Num vx" "add (Num vy) (Num 0) = Num vy"
      using d by simp_all
    show ?L
      using sx0 sxw[OF wn(1)] sxh sy0 syh[OF wn(2)] syc n c(2)
      by (simp add: isRectValid_def corners_def pip vx vy e isNumber_add isNumber_half h d)
  }
qed

lemma firstFit_rectangle:
  assumes x: "isDouble x0" "isDouble x1" "x0 < x1"
    and y: "isDouble y0" "isDouble y1" "0 \<le> y0" "y0 < y1"
    and c: "isNumber cx" "isNumber cy"
    and s: "0 < s" and w: "tableWidth f = Num w" "0 \<le> w" and d: "tableDepth f = Num d" "0 \<le> d"
  shows "firstFit (rectangle x0 y0 x1 y1) [] (Num s) cx cy [f] =
     (if enabled f \<noteq> Some False \<and> le (Num x0) cx \<and> lt (add cx (mul (Num w) (Num s))) (Num x1)
         \<and> le (Num y0) cy \<and> lt (add cy (footprintH (Num s) f)) (Num y1)
      then Some f else None)"
proof -
  have W: "isNumber (mul (Num w) (Num s))" "le (Num 0) (mul (Num w) (Num s))"
    using s w(2) by (simp_all add: mul_nonneg del: mul.simps)
  have "le (mul (Num 100) (Num s)) (footprintH (Num s) f)" by (rule footprintH_ge[OF s d(2,1)])
  moreover have "le (Num 0) (mul (Num 100) (Num s))" using s by (intro mul_nonneg) simp_all
  ultimately have H: "le (Num 0) (footprintH (Num s) f)" by (rule le_le[rotated])
  have Hn: "isNumber (footprintH (Num s) f)" by (rule isNumber_footprintH[OF d(1)])
  show ?thesis
    using isRectValid_rectangle[OF x y c W Hn H]
    by (simp add: Let_def footprintH_def w(1) del: mul.simps add.simps)
qed

section \<open>Cursors\<close>

lemma cursor_isNumber: "cursor lo c \<Longrightarrow> isNumber c"
  by (auto simp: cursor_def)

lemma cursor_le: "cursor lo c \<Longrightarrow> le (Num lo) c"
  by (auto simp: cursor_def)

lemma cursor_Num [simp]: "cursor lo (Num x) \<longleftrightarrow> isDouble x \<and> lo \<le> x"
  by (auto simp: cursor_def)

lemma cursor_rnd: "lo \<le> x \<Longrightarrow> isDouble lo \<Longrightarrow> cursor lo (rnd x)"
  using rnd_ge[of lo x] by (auto simp: cursor_def)

lemma cursor_mul: "0 \<le> a \<Longrightarrow> 0 \<le> s \<Longrightarrow> cursor 0 (mul (Num a) (Num s))"
  by (simp add: cursor_rnd)

lemma cursor_step:
  assumes "cursor lo c" "cursor 0 e"
  shows "cursor lo (add c e)" "le c (add c e)"
proof -
  have "cursor lo (add c e) \<and> le c (add c e)"
  proof (cases c)
    case (Num x)
    with assms(1) have x: "isDouble x" "lo \<le> x" by simp_all
    show ?thesis
    proof (cases e)
      case e: (Num r)
      with assms(2) have "x \<le> x + r" by simp
      from rnd_ge[OF this x(1)] x(2) Num e show ?thesis by (auto simp: cursor_def)
    qed (use assms(2) Num in \<open>simp_all add: cursor_def\<close>)
  qed (use assms in \<open>cases e; simp add: cursor_def\<close>)+
  then show "cursor lo (add c e)" "le c (add c e)" by simp_all
qed

lemma cursor_add_mono:
  assumes "cursor la a" "cursor lb b" "le a b" "cursor 0 c" "cursor 0 d" "le c d"
  shows "le (add a c) (add b d)"
proof -
  from assms(1,2,4,5) have n: "add a c \<noteq> NaN" "add b d \<noteq> NaN"
    by (auto simp: cursor_def)
  show ?thesis
  proof (cases "\<exists>x y u v. a = Num x \<and> b = Num y \<and> c = Num u \<and> d = Num v")
    case True
    then obtain x y u v where e: "a = Num x" "b = Num y" "c = Num u" "d = Num v" by blast
    with assms(3,6) have "x + u \<le> y + v" by simp
    then show ?thesis by (simp add: e rnd_mono)
  next
    case False
    with assms have "add b d = PosInf" by (auto simp: cursor_def le_def)
    with n show ?thesis by simp
  qed
qed

lemma cursor_footprintH:
  assumes "0 < s" "0 \<le> d" "tableDepth f = Num d"
  shows "cursor 0 (footprintH (Num s) f)"
  unfolding footprintH_def assms(3) CHAIR_DIMENSIONS_depth_def
  using assms(1,2) by (intro cursor_step cursor_mul) simp_all

section \<open>The sweep of a rectangular room with one catalogue entry\<close>

lemma sweepOK_fit:
  assumes ok: "sweepOK x0 y0 x1 y1 s f" and c: "isNumber cx" "isNumber cy"
  shows "firstFit (rectangle x0 y0 x1 y1) [] (Num s) cx cy [f] =
     (if enabled f \<noteq> Some False \<and> le (Num x0) cx
         \<and> lt (add cx (mul (tableWidth f) (Num s))) (Num x1)
         \<and> le (Num y0) cy \<and> lt (add cy (footprintH (Num s) f)) (Num y1)
      then Some f else None)"
proof -
  from ok obtain w d where wd: "tableWidth f = Num w" "0 \<le> w" "tableDepth f = Num d" "0 \<le> d"
    unfolding sweepOK_def by blast
  from ok have r: "isDouble x0" "isDouble x1" "x0 < x1" "isDouble y0" "isDouble y1" "0 \<le> y0"
    "y0 < y1" "0 < s" unfolding sweepOK_def by simp_all
  show ?thesis unfolding wd(1)
    by (rule firstFit_rectangle[OF r(1-7) c r(8) wd])
qed

lemma sweepOK_cursors:
  assumes ok: "sweepOK x0 y0 x1 y1 s f"
  shows "cursor 0 (mul (tableWidth f) (Num s))" "cursor 0 (mul (Num 50) (Num s))"
    "cursor 0 (stepX s f)" "cursor 0 (footprintH (Num s) f)"
    "le (mul (Num 50) (Num s)) (stepX s f)"
    "le (mul (Num 100) (Num s)) (footprintH (Num s) f)"
    "gt (footprintH (Num s) f) (Num 0)"
proof -
  from ok obtain w d where wd: "tableWidth f = Num w" "0 \<le> w" "tableDepth f = Num d" "0 \<le> d"
    unfolding sweepOK_def by blast
  from ok have s: "0 < s" and y: "isDouble y0" "y0 < y1"
    and rowstep: "\<forall>y. isDouble y \<and> y0 \<le> y \<and> y < y1
            \<longrightarrow> lt (Num y) (add (Num y) (mul (Num 100) (Num s)))"
    unfolding sweepOK_def by simp_all
  show W: "cursor 0 (mul (tableWidth f) (Num s))"
    unfolding wd(1) using wd(2) s by (intro cursor_mul) simp_all
  show D: "cursor 0 (mul (Num 50) (Num s))" using s by (intro cursor_mul) simp_all
  show "cursor 0 (stepX s f)" unfolding stepX_def by (rule cursor_step(1)[OF W D])
  show H: "cursor 0 (footprintH (Num s) f)" by (rule cursor_footprintH[OF s wd(4,3)])
  have "le (Num 0) (mul (tableWidth f) (Num s))" by (rule cursor_le[OF W])
  then show "le (mul (Num 50) (Num s)) (stepX s f)"
    unfolding stepX_def using D
    by (intro add_ge_right) (auto simp: cursor_def simp del: mul.simps)
  show h100: "le (mul (Num 100) (Num s)) (footprintH (Num s) f)"
    by (rule footprintH_ge[OF s wd(4,3)])
  have c100: "cursor 0 (mul (Num 100) (Num s))" using s by (intro cursor_mul) simp_all
  from rowstep y have "lt (Num y0) (add (Num y0) (mul (Num 100) (Num s)))" by simp
  then have "mul (Num 100) (Num s) \<noteq> Num 0" using y(1) by (auto simp del: mul.simps)
  with c100 have "lt (Num 0) (mul (Num 100) (Num s))"
    by (auto simp: cursor_def simp del: mul.simps)
  from lt_le[OF this h100] show "gt (footprintH (Num s) f) (Num 0)" by (simp add: gt_def)
qed

lemma sweepOK_advance:
  assumes ok: "sweepOK x0 y0 x1 y1 s f" and x: "isDouble x" "x0 \<le> x" "x < x1"
  shows "lt (Num x) (add (Num x) (mul (Num 50) (Num s)))"
    "lt (Num x) (add (Num x) (stepX s f))"
proof -
  from ok x show a: "lt (Num x) (add (Num x) (mul (Num 50) (Num s)))"
    unfolding sweepOK_def by blast
  from lt_le[OF a add_right_mono[OF sweepOK_cursors(5)[OF ok]]]
  show "lt (Num x) (add (Num x) (stepX s f))" .
qed

lemma sweepOK_column_returns:
  assumes ok: "sweepOK x0 y0 x1 y1 s f" and c: "cursor x0 cx"
  shows "\<exists>r. columnLoop uuid (rectangle x0 y0 x1 y1) [] (Num s) [f] (Num x1) cy cx rh items
             = Some r"
proof (rule columnLoop_terminates[where lo = x0])
  fix x assume "isDouble x" "x0 \<le> x" "x < x1"
  from sweepOK_advance(1)[OF ok this] show "lt (Num x) (add (Num x) (mul (Num 50) (Num s)))" .
next
  fix x fType
  assume x: "isDouble x" "x0 \<le> x" "x < x1"
    and "firstFit (rectangle x0 y0 x1 y1) [] (Num s) (Num x) cy [f] = Some fType"
  with firstFit_Some[of "rectangle x0 y0 x1 y1" "[]" "Num s" "Num x" cy "[f]" fType]
  have "fType = f" by simp
  with sweepOK_advance(2)[OF ok x]
  show "lt (Num x) (add (Num x) (add (mul (tableWidth fType) (Num s)) (mul (Num 50) (Num s))))"
    by (simp add: stepX_def)
next
  from c show "cx = PosInf \<or> (\<exists>x. cx = Num x \<and> isDouble x \<and> x0 \<le> x)" by (simp add: cursor_def)
qed

lemma columnLoop_grows:
  assumes "columnLoop uuid polygon holes scale fts maxX cy cx rh items = Some (rh', items')"
  shows "length items \<le> length items'"
  using columnLoop_uuid[OF assms] by simp

lemma rowLoop_grows:
  assumes "rowLoop uuid polygon holes scale fts minX maxX maxY gap cy items = Some items'"
  shows "length items \<le> length items'"
  using rowLoop_uuid[OF assms] by simp

lemma sweepOK_column_none_from:
  assumes ok: "sweepOK x0 y0 x1 y1 s f" and c: "cursor x0 cx"
    and nf: "\<And>c'. cursor x0 c' \<Longrightarrow> le cx c' \<Longrightarrow>
               firstFit (rectangle x0 y0 x1 y1) [] (Num s) c' cy [f] = None"
  shows "columnLoop uuid (rectangle x0 y0 x1 y1) [] (Num s) [f] (Num x1) cy cx rh items
         = Some (rh, items)"
proof -
  from sweepOK_column_returns[OF ok c] obtain r where
    r: "columnLoop uuid (rectangle x0 y0 x1 y1) [] (Num s) [f] (Num x1) cy cx rh items = Some r"
    by blast
  have cn: "cx \<noteq> NaN" using c by (auto simp: cursor_def)
  have "\<exists>c'. \<not> lt c' (Num x1) \<and> (cursor x0 c' \<and> le cx c' \<and> fst r = rh \<and> snd r = items)"
  proof (rule columnLoop_inv[where
        I = "\<lambda>c' rh' items'. cursor x0 c' \<and> le cx c' \<and> rh' = rh \<and> items' = items", OF r])
    show "cursor x0 cx \<and> le cx cx \<and> rh = rh \<and> items = items" using c cn by (simp add: le_refl)
  next
    fix c' rh' items' fType
    assume "cursor x0 c' \<and> le cx c' \<and> rh' = rh \<and> items' = items"
      and "firstFit (rectangle x0 y0 x1 y1) [] (Num s) c' cy [f] = Some fType"
    with nf show "cursor x0 (add c' (add (mul (tableWidth fType) (Num s)) (mul (Num 50) (Num s))))
        \<and> le cx (add c' (add (mul (tableWidth fType) (Num s)) (mul (Num 50) (Num s))))
        \<and> max2 rh' (add (mul (tableDepth fType) (Num s)) (mul CHAIR_DIMENSIONS_depth (Num s))) = rh
        \<and> items' @ [\<lparr>item_id = uuid (length items'), item_x = c', item_y = cy,
                       rotation = Num 0, item_type = fType\<rparr>] = items"
      by simp
  next
    fix c' rh' items'
    assume i: "cursor x0 c' \<and> le cx c' \<and> rh' = rh \<and> items' = items"
    from cursor_step[OF _ sweepOK_cursors(2)[OF ok], of x0 c'] i
    show "cursor x0 (add c' (mul (Num 50) (Num s))) \<and> le cx (add c' (mul (Num 50) (Num s)))
        \<and> rh' = rh \<and> items' = items"
      by (auto intro: le_le)
  qed
  with r show ?thesis by (cases r) auto
qed

lemma sweepOK_fit_later:
  assumes ok: "sweepOK x0 y0 x1 y1 s f"
    and c: "cursor x0 cx" "cursor x0 cx'" "le cx cx'"
    and y: "cursor y0 cy" "cursor y0 cy'" "le cy cy'"
    and nf: "firstFit (rectangle x0 y0 x1 y1) [] (Num s) cx cy [f] = None"
  shows "firstFit (rectangle x0 y0 x1 y1) [] (Num s) cx' cy' [f] = None"
proof -
  note k = sweepOK_cursors[OF ok]
  have W: "le (mul (tableWidth f) (Num s)) (mul (tableWidth f) (Num s))"
    using k(1) by (intro le_refl) (auto simp: cursor_def)
  have H: "le (footprintH (Num s) f) (footprintH (Num s) f)"
    using k(4) by (intro le_refl) (auto simp: cursor_def)
  have a: "lt (add cx (mul (tableWidth f) (Num s))) (Num x1)"
    if "lt (add cx' (mul (tableWidth f) (Num s))) (Num x1)"
    using le_lt[OF cursor_add_mono[OF c(1,2,3) k(1) k(1) W] that] .
  have b: "lt (add cy (footprintH (Num s) f)) (Num y1)"
    if "lt (add cy' (footprintH (Num s) f)) (Num y1)"
    using le_lt[OF cursor_add_mono[OF y(1,2,3) k(4) k(4) H] that] .
  from nf a b cursor_le[OF c(1)] cursor_le[OF y(1)] show ?thesis
    by (auto simp add: sweepOK_fit[OF ok cursor_isNumber[OF c(1)] cursor_isNumber[OF y(1)]]
        sweepOK_fit[OF ok cursor_isNumber[OF c(2)] cursor_isNumber[OF y(2)]]
        simp del: firstFit.simps split: if_splits)
qed

lemma sweepOK_fit_earlier:
  assumes ok: "sweepOK x0 y0 x1 y1 s f"
    and c: "cursor x0 cx" "cursor x0 cx'" "le cx cx'"
    and y: "cursor y0 cy" "cursor y0 cy'" "le cy cy'"
    and fit: "firstFit (rectangle x0 y0 x1 y1) [] (Num s) cx' cy' [f] = Some g"
  shows "firstFit (rectangle x0 y0 x1 y1) [] (Num s) cx cy [f] = Some f"
proof (cases "firstFit (rectangle x0 y0 x1 y1) [] (Num s) cx cy [f]")
  case None
  from sweepOK_fit_later[OF ok c y None] fit show ?thesis by simp
next
  case (Some a)
  with firstFit_Some[of "rectangle x0 y0 x1 y1" "[]" "Num s" cx cy "[f]" a] show ?thesis by simp
qed

text \<open>A cursor at which the entry fits is finite and below the right edge.\<close>

lemma sweepOK_fit_cursor:
  assumes ok: "sweepOK x0 y0 x1 y1 s f"
    and c: "cursor x0 cx" "cursor y0 cy"
    and fit: "firstFit (rectangle x0 y0 x1 y1) [] (Num s) cx cy [f] = Some g"
  shows "\<exists>vx vy. cx = Num vx \<and> isDouble vx \<and> x0 \<le> vx \<and> vx < x1
               \<and> cy = Num vy \<and> isDouble vy \<and> y0 \<le> vy \<and> vy < y1"
proof -
  note k = sweepOK_cursors[OF ok]
  from fit have a: "lt (add cx (mul (tableWidth f) (Num s))) (Num x1)"
    and b: "lt (add cy (footprintH (Num s) f)) (Num y1)"
    by (simp_all add: sweepOK_fit[OF ok cursor_isNumber[OF c(1)] cursor_isNumber[OF c(2)]]
        del: firstFit.simps split: if_splits)
  from le_lt[OF cursor_step(2)[OF c(1) k(1)] a] have "lt cx (Num x1)" .
  moreover from le_lt[OF cursor_step(2)[OF c(2) k(4)] b] have "lt cy (Num y1)" .
  ultimately show ?thesis using c by (auto simp: cursor_def)
qed

lemma sweepOK_column_mono:
  assumes ok: "sweepOK x0 y0 x1 y1 s f"
    and y: "cursor y0 cy1" "cursor y0 cy2" "le cy1 cy2"
    and x: "cursor x0 cx1" "cursor x0 cx2" "le cx1 cx2"
    and c1: "columnLoop uuid1 (rectangle x0 y0 x1 y1) [] (Num s) [f] (Num x1) cy1 cx1 rh1 items1
             = Some (rh1', items1')"
    and c2: "columnLoop uuid2 (rectangle x0 y0 x1 y1) [] (Num s) [f] (Num x1) cy2 cx2 rh2 items2
             = Some (rh2', items2')"
  shows "length items2' + length items1 \<le> length items1' + length items2"
  using x c1 c2
proof (induction "remaining x1 cx2" arbitrary: cx1 cx2 rh1 rh2 items1 items2 rule: less_induct)
  case less
  let ?R = "rectangle x0 y0 x1 y1"
  note k = sweepOK_cursors[OF ok]
  have grow1: "length items1 \<le> length items1'" by (rule columnLoop_grows[OF less.prems(4)])
  have yy: "le cy2 cy2" using y(2) by (intro le_refl) (auto simp: cursor_def)
  show ?case
  proof (cases "firstFit ?R [] (Num s) cx2 cy2 [f]")
    case None
    have "firstFit ?R [] (Num s) c' cy2 [f] = None" if "cursor x0 c'" "le cx2 c'" for c'
      by (rule sweepOK_fit_later[OF ok less.prems(2) that y(2) y(2) yy None])
    from sweepOK_column_none_from[OF ok less.prems(2) this] less.prems(5)
    have "items2' = items2" by simp
    with grow1 show ?thesis by simp
  next
    case (Some g)
    with firstFit_Some[of ?R "[]" "Num s" cx2 cy2 "[f]" g] have g: "g = f" by simp
    from sweepOK_fit_cursor[OF ok less.prems(2) y(2) Some] obtain v2 where
      v2: "cx2 = Num v2" "isDouble v2" "x0 \<le> v2" "v2 < x1" by blast
    have fit1: "firstFit ?R [] (Num s) cx1 cy1 [f] = Some f"
      by (rule sweepOK_fit_earlier[OF ok less.prems(1,2,3) y Some])
    from sweepOK_fit_cursor[OF ok less.prems(1) y(1) fit1] obtain v1 where
      v1: "cx1 = Num v1" "isDouble v1" "x0 \<le> v1" "v1 < x1" by blast
    let ?it1 = "\<lparr>item_id = uuid1 (length items1), item_x = cx1, item_y = cy1,
               rotation = Num 0, item_type = f\<rparr>"
    let ?it2 = "\<lparr>item_id = uuid2 (length items2), item_x = cx2, item_y = cy2,
               rotation = Num 0, item_type = f\<rparr>"
    from less.prems(4) fit1 v1 have c1': "columnLoop uuid1 ?R [] (Num s) [f] (Num x1)
        cy1 (add cx1 (stepX s f)) (max2 rh1 (footprintH (Num s) f))
        (items1 @ [?it1]) = Some (rh1', items1')"
      by (subst (asm) columnLoop.simps) (simp add: stepX_def footprintH_def del: mul.simps add.simps)
    from less.prems(5) Some g v2 have c2': "columnLoop uuid2 ?R [] (Num s) [f] (Num x1)
        cy2 (add cx2 (stepX s f)) (max2 rh2 (footprintH (Num s) f))
        (items2 @ [?it2]) = Some (rh2', items2')"
      by (subst (asm) columnLoop.simps) (simp add: stepX_def footprintH_def del: mul.simps add.simps)
    have m: "remaining x1 (add cx2 (stepX s f)) < remaining x1 cx2"
      unfolding v2(1) by (rule remaining_decreases(1)[OF v2(2,4) sweepOK_advance(2)[OF ok v2(2-4)]])
    have st: "le (stepX s f) (stepX s f)" using k(3) by (intro le_refl) (auto simp: cursor_def)
    have "cursor x0 (add cx1 (stepX s f))" "cursor x0 (add cx2 (stepX s f))"
      "le (add cx1 (stepX s f)) (add cx2 (stepX s f))"
      using cursor_step(1)[OF less.prems(1) k(3)] cursor_step(1)[OF less.prems(2) k(3)]
        cursor_add_mono[OF less.prems(1,2,3) k(3) k(3) st] by simp_all
    from less.hyps[OF m this c1' c2'] show ?thesis by simp
  qed
qed

lemma sweepOK_rowHeight_keep:
  assumes ok: "sweepOK x0 y0 x1 y1 s f"
    and c: "columnLoop uuid (rectangle x0 y0 x1 y1) [] (Num s) [f] (Num x1) cy cx
              (footprintH (Num s) f) items = Some (rh', items')"
  shows "rh' = footprintH (Num s) f"
proof -
  let ?H = "footprintH (Num s) f"
  from sweepOK_cursors(4)[OF ok] have n: "?H \<noteq> NaN" by (auto simp: cursor_def)
  have "\<exists>cx'. \<not> lt cx' (Num x1) \<and> fst (rh', items') = ?H"
  proof (rule columnLoop_inv[where I = "\<lambda>cx rh items. rh = ?H", OF c])
    fix cx rh items fType
    assume "rh = ?H" and "firstFit (rectangle x0 y0 x1 y1) [] (Num s) cx cy [f] = Some fType"
    with firstFit_Some[of "rectangle x0 y0 x1 y1" "[]" "Num s" cx cy "[f]" fType] n
    show "max2 rh (add (mul (tableDepth fType) (Num s)) (mul CHAIR_DIMENSIONS_depth (Num s))) = ?H"
      by (simp add: footprintH_def max2_def del: mul.simps add.simps)
  qed simp_all
  then show ?thesis by simp
qed

lemma sweepOK_first_fit:
  assumes ok: "sweepOK x0 y0 x1 y1 s f"
    and fit: "firstFit (rectangle x0 y0 x1 y1) [] (Num s) cx cy [f] = Some f"
    and lt: "lt cx (Num x1)"
    and c: "columnLoop uuid (rectangle x0 y0 x1 y1) [] (Num s) [f] (Num x1) cy cx (Num 0) items
              = Some (rh', items')"
  shows "rh' = footprintH (Num s) f" and "length items < length items'"
proof -
  let ?H = "footprintH (Num s) f"
  let ?it = "\<lparr>item_id = uuid (length items), item_x = cx, item_y = cy,
               rotation = Num 0, item_type = f\<rparr>"
  from sweepOK_cursors(7)[OF ok] have "max2 (Num 0) ?H = ?H"
    by (cases ?H) (auto simp: max2_def gt_def)
  with c fit lt have c': "columnLoop uuid (rectangle x0 y0 x1 y1) [] (Num s) [f] (Num x1) cy
      (add cx (stepX s f)) ?H (items @ [?it]) = Some (rh', items')"
    by (subst (asm) columnLoop.simps) (simp add: footprintH_def stepX_def del: mul.simps add.simps)
  from sweepOK_rowHeight_keep[OF ok c'] show "rh' = ?H" .
  from columnLoop_grows[OF c'] show "length items < length items'" by simp
qed

lemma sweepOK_row_advance:
  assumes ok: "sweepOK x0 y0 x1 y1 s f" and gap: "cursor 0 gap"
    and y: "isDouble y" "y0 \<le> y" "y < y1"
  shows "lt (Num y) (add (Num y) (mul (Num 100) (Num s)))"
    "lt (Num y) (add (Num y) (add (footprintH (Num s) f) gap))"
proof -
  note k = sweepOK_cursors[OF ok]
  from ok y show a: "lt (Num y) (add (Num y) (mul (Num 100) (Num s)))"
    unfolding sweepOK_def by blast
  from le_le[OF k(6) cursor_step(2)[OF k(4) gap]]
  have "le (mul (Num 100) (Num s)) (add (footprintH (Num s) f) gap)" .
  from lt_le[OF a add_right_mono[OF this]]
  show "lt (Num y) (add (Num y) (add (footprintH (Num s) f) gap))" .
qed

lemma sweepOK_row_returns:
  assumes ok: "sweepOK x0 y0 x1 y1 s f" and gap: "cursor 0 gap" and c: "cursor y0 cy"
  shows "\<exists>r. rowLoop uuid (rectangle x0 y0 x1 y1) [] (Num s) [f] (Num x0) (Num x1) (Num y1) gap
             cy items = Some r"
proof -
  let ?R = "rectangle x0 y0 x1 y1"
  from ok have x0: "isDouble x0" unfolding sweepOK_def by simp
  then have cx: "cursor x0 (add (Num x0) gap)" by (intro cursor_step(1)[OF _ gap]) simp
  show ?thesis
  proof (rule rowLoop_terminates[where lo = y0, OF sweepOK_column_returns[OF ok cx]])
    fix y items rh items'
    assume y: "isDouble y" "y0 \<le> y" "y < y1"
      and col: "columnLoop uuid ?R [] (Num s) [f] (Num x1) (Num y) (add (Num x0) gap) (Num 0)
                  items = Some (rh, items')"
    show "lt (Num y) (add (Num y) (if gt rh (Num 0) then add rh gap else mul (Num 100) (Num s)))"
    proof (cases "gt rh (Num 0)")
      case False
      with sweepOK_row_advance(1)[OF ok gap y] show ?thesis by simp
    next
      case True
      then have "rh \<noteq> Num 0" "rh \<noteq> NaN" by (auto simp: gt_def)
      with columnLoop_rowHeight[OF col] have "rh = footprintH (Num s) f" by simp
      with sweepOK_row_advance(2)[OF ok gap y] True show ?thesis by simp
    qed
  next
    from c show "cy = PosInf \<or> (\<exists>y. cy = Num y \<and> isDouble y \<and> y0 \<le> y)"
      by (simp add: cursor_def)
  qed
qed

lemma sweepOK_row_none_from:
  assumes ok: "sweepOK x0 y0 x1 y1 s f" and gap: "cursor 0 gap" and c: "cursor y0 cy"
    and nf: "\<And>cx' cy'. cursor x0 cx' \<Longrightarrow> le (add (Num x0) gap) cx' \<Longrightarrow> cursor y0 cy'
               \<Longrightarrow> le cy cy'
               \<Longrightarrow> firstFit (rectangle x0 y0 x1 y1) [] (Num s) cx' cy' [f] = None"
  shows "rowLoop uuid (rectangle x0 y0 x1 y1) [] (Num s) [f] (Num x0) (Num x1) (Num y1) gap
           cy items = Some items"
proof -
  let ?R = "rectangle x0 y0 x1 y1"
  from ok have x0: "isDouble x0" unfolding sweepOK_def by simp
  then have cx: "cursor x0 (add (Num x0) gap)" by (intro cursor_step(1)[OF _ gap]) simp
  from sweepOK_row_returns[OF ok gap c] obtain r where
    r: "rowLoop uuid ?R [] (Num s) [f] (Num x0) (Num x1) (Num y1) gap cy items = Some r"
    by blast
  have cn: "le cy cy" using c by (intro le_refl) (auto simp: cursor_def)
  have c100: "cursor 0 (mul (Num 100) (Num s))"
    using ok unfolding sweepOK_def by (intro cursor_mul) simp_all
  have "\<exists>cy'. \<not> lt cy' (Num y1) \<and> (cursor y0 cy' \<and> le cy cy' \<and> r = items)"
  proof (rule rowLoop_inv[where I = "\<lambda>cy' items'. cursor y0 cy' \<and> le cy cy' \<and> items' = items",
        OF r])
    show "cursor y0 cy \<and> le cy cy \<and> items = items" using c cn by simp
  next
    fix cy' items' rh items''
    assume i: "cursor y0 cy' \<and> le cy cy' \<and> items' = items"
      and col: "columnLoop uuid ?R [] (Num s) [f] (Num x1) cy' (add (Num x0) gap) (Num 0) items'
              = Some (rh, items'')"
    have "columnLoop uuid ?R [] (Num s) [f] (Num x1) cy' (add (Num x0) gap) (Num 0) items'
          = Some (Num 0, items')"
      by (rule sweepOK_column_none_from[OF ok cx]) (use i nf in blast)
    with col have e: "rh = Num 0" "items'' = items'" by simp_all
    from cursor_step[OF _ c100, of y0 cy'] i
    have "cursor y0 (add cy' (mul (Num 100) (Num s)))" "le cy (add cy' (mul (Num 100) (Num s)))"
      by (auto intro: le_le)
    with e i show "(cursor y0 (if gt rh (Num 0) then add cy' (add rh gap)
                               else add cy' (mul (Num 100) (Num s)))
        \<and> le cy (if gt rh (Num 0) then add cy' (add rh gap) else add cy' (mul (Num 100) (Num s)))
        \<and> items'' = items)"
      by (simp add: gt_def del: mul.simps)
  qed
  then show ?thesis using r by auto
qed

lemma sweepOK_row_mono:
  assumes ok: "sweepOK x0 y0 x1 y1 s f"
    and g: "cursor 0 gap1" "cursor 0 gap2" "le gap1 gap2"
    and y: "cursor y0 cy1" "cursor y0 cy2" "le cy1 cy2"
    and r1: "rowLoop uuid1 (rectangle x0 y0 x1 y1) [] (Num s) [f] (Num x0) (Num x1) (Num y1) gap1
               cy1 items1 = Some res1"
    and r2: "rowLoop uuid2 (rectangle x0 y0 x1 y1) [] (Num s) [f] (Num x0) (Num x1) (Num y1) gap2
               cy2 items2 = Some res2"
  shows "length res2 + length items1 \<le> length res1 + length items2"
  using y r1 r2
proof (induction "remaining y1 cy2" arbitrary: cy1 cy2 items1 items2 rule: less_induct)
  case less
  let ?R = "rectangle x0 y0 x1 y1"
  let ?H = "footprintH (Num s) f"
  note k = sweepOK_cursors[OF ok]
  from ok have x0: "isDouble x0" unfolding sweepOK_def by simp
  have cx1: "cursor x0 (add (Num x0) gap1)" using x0 by (intro cursor_step(1)[OF _ g(1)]) simp
  have cx2: "cursor x0 (add (Num x0) gap2)" using x0 by (intro cursor_step(1)[OF _ g(2)]) simp
  have cxle: "le (add (Num x0) gap1) (add (Num x0) gap2)" by (rule add_right_mono[OF g(3)])
  have grow1: "length items1 \<le> length res1" by (rule rowLoop_grows[OF less.prems(4)])
  show ?case
  proof (cases "lt cy2 (Num y1) \<and> firstFit ?R [] (Num s) (add (Num x0) gap2) cy2 [f] \<noteq> None")
    case False
    have "res2 = items2"
    proof (cases "lt cy2 (Num y1)")
      case False
      with less.prems(5) show ?thesis by (subst (asm) rowLoop.simps) simp
    next
      case True
      with False have nf: "firstFit ?R [] (Num s) (add (Num x0) gap2) cy2 [f] = None" by simp
      have "firstFit ?R [] (Num s) cx' cy' [f] = None"
        if "cursor x0 cx'" "le (add (Num x0) gap2) cx'" "cursor y0 cy'" "le cy2 cy'" for cx' cy'
        by (rule sweepOK_fit_later[OF ok cx2 that(1,2) less.prems(2) that(3,4) nf])
      from sweepOK_row_none_from[OF ok g(2) less.prems(2) this] less.prems(5)
      show ?thesis by simp
    qed
    with grow1 show ?thesis by simp
  next
    case True
    then obtain a where lt2: "lt cy2 (Num y1)"
      and fit2': "firstFit ?R [] (Num s) (add (Num x0) gap2) cy2 [f] = Some a" by auto
    have yy: "le cy2 cy2" using less.prems(2) by (intro le_refl) (auto simp: cursor_def)
    have xx: "le (add (Num x0) gap2) (add (Num x0) gap2)"
      using cx2 by (intro le_refl) (auto simp: cursor_def)
    have fit2: "firstFit ?R [] (Num s) (add (Num x0) gap2) cy2 [f] = Some f"
      by (rule sweepOK_fit_earlier[OF ok cx2 cx2 xx less.prems(2) less.prems(2) yy fit2'])
    have fit1: "firstFit ?R [] (Num s) (add (Num x0) gap1) cy1 [f] = Some f"
      by (rule sweepOK_fit_earlier[OF ok cx1 cx2 cxle less.prems(1,2,3) fit2'])
    from sweepOK_fit_cursor[OF ok cx2 less.prems(2) fit2] obtain u2 v2 where
      v2: "add (Num x0) gap2 = Num u2" "u2 < x1" "cy2 = Num v2" "isDouble v2" "y0 \<le> v2" "v2 < y1"
      by blast
    from sweepOK_fit_cursor[OF ok cx1 less.prems(1) fit1] obtain u1 v1 where
      v1: "add (Num x0) gap1 = Num u1" "u1 < x1" "cy1 = Num v1" "isDouble v1" "y0 \<le> v1" "v1 < y1"
      by blast
    from less.prems(4) v1 obtain rh1 it1 where
      c1: "columnLoop uuid1 ?R [] (Num s) [f] (Num x1) cy1 (add (Num x0) gap1) (Num 0) items1
           = Some (rh1, it1)"
      by (subst (asm) rowLoop.simps) (auto split: option.splits)
    from less.prems(5) v2 obtain rh2 it2 where
      c2: "columnLoop uuid2 ?R [] (Num s) [f] (Num x1) cy2 (add (Num x0) gap2) (Num 0) items2
           = Some (rh2, it2)"
      by (subst (asm) rowLoop.simps) (auto split: option.splits)
    have l1: "lt (add (Num x0) gap1) (Num x1)" and l2: "lt (add (Num x0) gap2) (Num x1)"
      using v1(1,2) v2(1,2) by simp_all
    from sweepOK_first_fit[OF ok fit1 l1 c1] have rh1: "rh1 = ?H" by simp
    from sweepOK_first_fit[OF ok fit2 l2 c2] have rh2: "rh2 = ?H" by simp
    from less.prems(4) v1(3,6) c1 rh1 k(7) have r1':
      "rowLoop uuid1 ?R [] (Num s) [f] (Num x0) (Num x1) (Num y1) gap1 (add cy1 (add ?H gap1)) it1
       = Some res1"
      by (subst (asm) rowLoop.simps) simp
    from less.prems(5) v2(3,6) c2 rh2 k(7) have r2':
      "rowLoop uuid2 ?R [] (Num s) [f] (Num x0) (Num x1) (Num y1) gap2 (add cy2 (add ?H gap2)) it2
       = Some res2"
      by (subst (asm) rowLoop.simps) simp
    have col: "length it2 + length items1 \<le> length it1 + length items2"
      by (rule sweepOK_column_mono[OF ok less.prems(1,2,3) cx1 cx2 cxle c1 c2])
    have m: "remaining y1 (add cy2 (add ?H gap2)) < remaining y1 cy2"
      unfolding v2(3)
      by (rule remaining_decreases(1)[OF v2(4,6) sweepOK_row_advance(2)[OF ok g(2) v2(4-6)]])
    have hh: "le ?H ?H" using k(4) by (intro le_refl) (auto simp: cursor_def)
    have s1: "cursor 0 (add ?H gap1)" and s2: "cursor 0 (add ?H gap2)"
      using cursor_step(1)[OF k(4) g(1)] cursor_step(1)[OF k(4) g(2)] by simp_all
    have sle: "le (add ?H gap1) (add ?H gap2)"
      by (rule cursor_add_mono[OF k(4) k(4) hh g])
    have "cursor y0 (add cy1 (add ?H gap1))" "cursor y0 (add cy2 (add ?H gap2))"
      "le (add cy1 (add ?H gap1)) (add cy2 (add ?H gap2))"
      using cursor_step(1)[OF less.prems(1) s1] cursor_step(1)[OF less.prems(2) s2]
        cursor_add_mono[OF less.prems(1,2,3) s1 s2 sle] by simp_all
    from less.hyps[OF m this r1' r2'] col show ?thesis by simp
  qed
qed

section \<open>Binary64 results of the operations met in the examples below\<close>

lemma fl_11_10: "fl (11 / 10) = 2476979795053773 / 2251799813685248"
  using fl_eval_down[of 52 "11 / 10"] rhe_eval[of "4953959590107546" "11 / 10 * 2 ^ 52"]
  by (simp add: bias_def)

lemma fl_3_10: "fl (3 / 10) = 5404319552844595 / 18014398509481984"
  using fl_eval_down[of 54 "3 / 10"] rhe_eval[of "5404319552844595" "3 / 10 * 2 ^ 54"]
  by (simp add: bias_def)

lemma round_1: "rnd (433471464134410275 / 562949953421312) = Num (6772991627100161 / 8796093022208)"
  using rnd_down[of 43 "433471464134410275 / 562949953421312" "6772991627100161"] rhe_eval[of "6772991627100161" "433471464134410275 / 562949953421312 * 2 ^ 43"]
  by (simp add: bias_def)

lemma round_2: "rnd (61924494876344325 / 562949953421312) = Num (7740561859543041 / 70368744177664)"
  using rnd_down[of 46 "61924494876344325 / 562949953421312" "7740561859543041"] rhe_eval[of "7740561859543041" "61924494876344325 / 562949953421312 * 2 ^ 46"]
  by (simp add: bias_def)

lemma round_3: "rnd (185773484629032975 / 281474976710656) = Num (660)"
  using rnd_down[of 43 "185773484629032975 / 281474976710656" "5805421394657280"] rhe_eval[of "5805421394657280" "185773484629032975 / 281474976710656 * 2 ^ 43"]
  by (simp add: bias_def)

lemma round_4: "rnd (54183933016801281 / 70368744177664) = Num (770)"
  using rnd_down[of 43 "54183933016801281 / 70368744177664" "6772991627100160"] rhe_eval[of "6772991627100160" "54183933016801281 / 70368744177664 * 2 ^ 43"]
  by (simp add: bias_def)

lemma round_5: "rnd (7740561859543041 / 70368744177664) = Num (7740561859543041 / 70368744177664)"
  using rnd_down[of 46 "7740561859543041 / 70368744177664" "7740561859543041"] rhe_eval[of "7740561859543041" "7740561859543041 / 70368744177664 * 2 ^ 46"]
  by (simp add: bias_def)

lemma round_6: "rnd (7740561859543041 / 140737488355328) = Num (7740561859543041 / 140737488355328)"
  using rnd_down[of 47 "7740561859543041 / 140737488355328" "7740561859543041"] rhe_eval[of "7740561859543041" "7740561859543041 / 140737488355328 * 2 ^ 47"]
  by (simp add: bias_def)

lemma round_7: "rnd (6772991627100161 / 8796093022208) = Num (6772991627100161 / 8796093022208)"
  using rnd_down[of 43 "6772991627100161 / 8796093022208" "6772991627100161"] rhe_eval[of "6772991627100161" "6772991627100161 / 8796093022208 * 2 ^ 43"]
  by (simp add: bias_def)

lemma round_8: "rnd (- (6772991627100161 / 8796093022208)) = Num (- (6772991627100161 / 8796093022208))"
  using rnd_down[of 43 "- (6772991627100161 / 8796093022208)" "- 6772991627100161"] rhe_eval[of "- 6772991627100161" "- (6772991627100161 / 8796093022208) * 2 ^ 43"]
  by (simp add: bias_def)

lemma round_9: "rnd (- (1 / 8796093022208)) = Num (- (1 / 8796093022208))"
  using rnd_down[of 95 "- (1 / 8796093022208)" "- 4503599627370496"] rhe_eval[of "- 4503599627370496" "- (1 / 8796093022208) * 2 ^ 95"]
  by (simp add: bias_def)

lemma round_10: "rnd (- (3386495813550081 / 8796093022208)) = Num (- (3386495813550081 / 8796093022208))"
  using rnd_down[of 44 "- (3386495813550081 / 8796093022208)" "- 6772991627100162"] rhe_eval[of "- 6772991627100162" "- (3386495813550081 / 8796093022208) * 2 ^ 44"]
  by (simp add: bias_def)

lemma round_11: "rnd (61924494876344325 / 1125899906842624) = Num (7740561859543041 / 140737488355328)"
  using rnd_down[of 47 "61924494876344325 / 1125899906842624" "7740561859543041"] rhe_eval[of "7740561859543041" "61924494876344325 / 1125899906842624 * 2 ^ 47"]
  by (simp add: bias_def)

lemma round_12: "rnd (23221685578629123 / 140737488355328) = Num (5805421394657281 / 35184372088832)"
  using rnd_down[of 45 "23221685578629123 / 140737488355328" "5805421394657281"] rhe_eval[of "5805421394657281" "23221685578629123 / 140737488355328 * 2 ^ 45"]
  by (simp add: bias_def)

lemma round_13: "rnd (5805421394657281 / 35184372088832) = Num (5805421394657281 / 35184372088832)"
  using rnd_down[of 45 "5805421394657281 / 35184372088832" "5805421394657281"] rhe_eval[of "5805421394657281" "5805421394657281 / 35184372088832 * 2 ^ 45"]
  by (simp add: bias_def)

lemma round_14: "rnd (7740561859543041 / 35184372088832) = Num (7740561859543041 / 35184372088832)"
  using rnd_down[of 45 "7740561859543041 / 35184372088832" "7740561859543041"] rhe_eval[of "7740561859543041" "7740561859543041 / 35184372088832 * 2 ^ 45"]
  by (simp add: bias_def)

lemma round_15: "rnd (61924494876344321 / 70368744177664) = Num (880)"
  using rnd_down[of 43 "61924494876344321 / 70368744177664" "7740561859543040"] rhe_eval[of "7740561859543040" "61924494876344321 / 70368744177664 * 2 ^ 43"]
  by (simp add: bias_def)

lemma round_16: "rnd (5404319552844595 / 18014398509481984) = Num (5404319552844595 / 18014398509481984)"
  using rnd_down[of 54 "5404319552844595 / 18014398509481984" "5404319552844595"] rhe_eval[of "5404319552844595" "5404319552844595 / 18014398509481984 * 2 ^ 54"]
  by (simp add: bias_def)

lemma round_17: "rnd (- (12610078956637389 / 18014398509481984)) = Num (- (3152519739159347 / 4503599627370496))"
  using rnd_down[of 53 "- (12610078956637389 / 18014398509481984)" "- 6305039478318694"] rhe_tie[of "- (12610078956637389 / 18014398509481984) * 2 ^ 53" "- 6305039478318695"]
  by (simp add: bias_def)

lemma round_18: "rnd (3152519739159347 / 4503599627370496) = Num (3152519739159347 / 4503599627370496)"
  using rnd_down[of 53 "3152519739159347 / 4503599627370496" "6305039478318694"] rhe_eval[of "6305039478318694" "3152519739159347 / 4503599627370496 * 2 ^ 53"]
  by (simp add: bias_def)

lemma round_19: "rnd (- (3152519739159347 / 4503599627370496)) = Num (- (3152519739159347 / 4503599627370496))"
  using rnd_down[of 53 "- (3152519739159347 / 4503599627370496)" "- 6305039478318694"] rhe_eval[of "- 6305039478318694" "- (3152519739159347 / 4503599627370496) * 2 ^ 53"]
  by (simp add: bias_def)

lemma round_20: "rnd (1351079888211149 / 4503599627370496) = Num (1351079888211149 / 4503599627370496)"
  using rnd_down[of 54 "1351079888211149 / 4503599627370496" "5404319552844596"] rhe_eval[of "5404319552844596" "1351079888211149 / 4503599627370496 * 2 ^ 54"]
  by (simp add: bias_def)

lemma round_21: "rnd (906124245026943795 / 18014398509481984) = Num (3539547832136499 / 70368744177664)"
  using rnd_down[of 47 "906124245026943795 / 18014398509481984" "7079095664272998"] rhe_eval[of "7079095664272998" "906124245026943795 / 18014398509481984 * 2 ^ 47"]
  by (simp add: bias_def)

lemma round_22: "rnd (1806844170501042995 / 18014398509481984) = Num (7057985041019699 / 70368744177664)"
  using rnd_down[of 46 "1806844170501042995 / 18014398509481984" "7057985041019699"] rhe_eval[of "7057985041019699" "1806844170501042995 / 18014398509481984 * 2 ^ 46"]
  by (simp add: bias_def)

lemma round_23: "rnd (1000000000000001000) = Num (1000000000000001024)"
  using rnd_up[of 7 "1000000000000001000" "7812500000000008"] rhe_eval[of "7812500000000008" "1000000000000001000 / 2 ^ 7"]
  by simp

lemma round_24: "rnd (1000000000000002224) = Num (1000000000000002176)"
  using rnd_up[of 7 "1000000000000002224" "7812500000000017"] rhe_eval[of "7812500000000017" "1000000000000002224 / 2 ^ 7"]
  by simp

lemma round_25: "rnd (1000000000000001624) = Num (1000000000000001664)"
  using rnd_up[of 7 "1000000000000001624" "7812500000000013"] rhe_eval[of "7812500000000013" "1000000000000001624 / 2 ^ 7"]
  by simp

lemma round_26: "rnd (1000000000000000000) = Num (1000000000000000000)"
  using rnd_up[of 7 "1000000000000000000" "7812500000000000"] rhe_eval[of "7812500000000000" "1000000000000000000 / 2 ^ 7"]
  by simp

lemma round_27: "rnd (1000000000000004096) = Num (1000000000000004096)"
  using rnd_up[of 7 "1000000000000004096" "7812500000000032"] rhe_eval[of "7812500000000032" "1000000000000004096 / 2 ^ 7"]
  by simp

lemma round_28: "rnd (1000000000000002274) = Num (1000000000000002304)"
  using rnd_up[of 7 "1000000000000002274" "7812500000000018"] rhe_eval[of "7812500000000018" "1000000000000002274 / 2 ^ 7"]
  by simp

lemma round_29: "rnd (1000000000000003504) = Num (1000000000000003456)"
  using rnd_up[of 7 "1000000000000003504" "7812500000000027"] rhe_eval[of "7812500000000027" "1000000000000003504 / 2 ^ 7"]
  by simp

lemma round_30: "rnd (1000000000000002904) = Num (1000000000000002944)"
  using rnd_up[of 7 "1000000000000002904" "7812500000000023"] rhe_eval[of "7812500000000023" "1000000000000002904 / 2 ^ 7"]
  by simp

lemma round_31: "rnd (1000000000000003554) = Num (1000000000000003584)"
  using rnd_up[of 7 "1000000000000003554" "7812500000000028"] rhe_eval[of "7812500000000028" "1000000000000003554 / 2 ^ 7"]
  by simp

lemma round_32: "rnd (1000000000000004784) = Num (1000000000000004736)"
  using rnd_up[of 7 "1000000000000004784" "7812500000000037"] rhe_eval[of "7812500000000037" "1000000000000004784 / 2 ^ 7"]
  by simp

lemma round_33: "rnd (1000000000000004184) = Num (1000000000000004224)"
  using rnd_up[of 7 "1000000000000004184" "7812500000000033"] rhe_eval[of "7812500000000033" "1000000000000004184 / 2 ^ 7"]
  by simp

lemma round_34: "rnd (1000000000000003634) = Num (1000000000000003584)"
  using rnd_up[of 7 "1000000000000003634" "7812500000000028"] rhe_eval[of "7812500000000028" "1000000000000003634 / 2 ^ 7"]
  by simp

lemmas rounding_facts =  round_1 round_2 round_3 round_4 round_5 round_6 round_7 round_8 round_9 round_10 round_11
  round_12 round_13 round_14 round_15 round_16 round_17 round_18 round_19 round_20 round_21
  round_22 round_23 round_24 round_25 round_26 round_27 round_28 round_29 round_30 round_31
  round_32 round_33 round_34

section \<open>The sweep on scenario B\<close>

lemma scenarioB:
  assumes "tableWidth f = Num 1200" "tableDepth f = Num 450" "enabled f \<noteq> Some False"
  shows "generateLayout uuid (square 6000) [] (Num 1) pattern [f] (Num 1300) =
    Some [\<lparr>item_id = uuid 0, item_x = Num 1300, item_y = Num 1300, rotation = Num 0, item_type = f\<rparr>,
          \<lparr>item_id = uuid 1, item_x = Num 2550, item_y = Num 1300, rotation = Num 0, item_type = f\<rparr>,
          \<lparr>item_id = uuid 2, item_x = Num 3800, item_y = Num 1300, rotation = Num 0, item_type = f\<rparr>,
          \<lparr>item_id = uuid 3, item_x = Num 1300, item_y = Num 3650, rotation = Num 0, item_type = f\<rparr>,
          \<lparr>item_id = uuid 4, item_x = Num 2550, item_y = Num 3650, rotation = Num 0, item_type = f\<rparr>,
          \<lparr>item_id = uuid 5, item_x = Num 3800, item_y = Num 3650, rotation = Num 0, item_type = f\<rparr>]"
  using assms by (simp add: eval_defs eval_nat_numeral)

section \<open>Containment of the emitted items\<close>

text \<open>
  Claim C1, amended. Whenever \<open>generateLayout\<close> returns, every returned item passes the
  containment test on the footprint the source computes: the rectangle with top-left
  corner at the item's position, width \<open>tableWidth * scale\<close> and height
  \<open>tableDepth * scale + 600 * scale\<close>, the two products and the sum each rounded to
  binary64. Its four corners and its centre, computed as \<open>isRectValid\<close> computes them,
  are inside the main polygon by the ray-casting test, and none of the five is inside a
  hole.
\<close>

theorem generateLayout_containment:
  assumes "generateLayout uuid polygon holes scale pattern furnitureTypes aisleGap = Some items"
      and "item \<in> set items"
      and "w = mul (tableWidth (item_type item)) scale"
      and "h = add (mul (tableDepth (item_type item)) scale) (mul (Num 600) scale)"
      and "p \<in> {\<lparr>px = item_x item, py = item_y item\<rparr>,
                 \<lparr>px = add (item_x item) w, py = item_y item\<rparr>,
                 \<lparr>px = add (item_x item) w, py = add (item_y item) h\<rparr>,
                 \<lparr>px = item_x item, py = add (item_y item) h\<rparr>,
                 \<lparr>px = add (item_x item) (divide_number w (Num 2)),
                  py = add (item_y item) (divide_number h (Num 2))\<rparr>}"
    shows "isPointInPolygon p polygon \<and> (\<forall>hole \<in> set holes. \<not> isPointInPolygon p hole)"
proof -
  from generateLayout_itemValid[OF assms(1)] assms(2)
  have v: "itemValid polygon holes scale item" by blast
  then have "list_all (\<lambda>p. isPointInPolygon p polygon)
                 (corners (item_x item) (item_y item) w h)"
    and "\<not> list_ex (\<lambda>hole. list_ex (\<lambda>p. isPointInPolygon p hole)
                 (corners (item_x item) (item_y item) w h)) holes"
    unfolding itemValid_def isRectValid_def assms(3,4) CHAIR_DIMENSIONS_depth_def
    by (auto split: if_splits)
  with assms(5) show ?thesis
    unfolding corners_def list_all_iff list_ex_iff by auto
qed

theorem generateLayout_containment_witness:
  "generateLayout uuidSeq (square 6000) [] (Num 1) standard [entry 1200 450] (Num 1300) =
     Some [\<lparr>item_id = uuidSeq 0, item_x = Num 1300, item_y = Num 1300, rotation = Num 0, item_type = entry 1200 450\<rparr>,
          \<lparr>item_id = uuidSeq 1, item_x = Num 2550, item_y = Num 1300, rotation = Num 0, item_type = entry 1200 450\<rparr>,
          \<lparr>item_id = uuidSeq 2, item_x = Num 3800, item_y = Num 1300, rotation = Num 0, item_type = entry 1200 450\<rparr>,
          \<lparr>item_id = uuidSeq 3, item_x = Num 1300, item_y = Num 3650, rotation = Num 0, item_type = entry 1200 450\<rparr>,
          \<lparr>item_id = uuidSeq 4, item_x = Num 2550, item_y = Num 3650, rotation = Num 0, item_type = entry 1200 450\<rparr>,
          \<lparr>item_id = uuidSeq 5, item_x = Num 3800, item_y = Num 3650, rotation = Num 0, item_type = entry 1200 450\<rparr>]
   \<and> isPointInPolygon \<lparr>px = Num 4400, py = Num 4175\<rparr> (square 6000)"
proof -
  have e: "generateLayout uuidSeq (square 6000) [] (Num 1) standard [entry 1200 450] (Num 1300) =
     Some [\<lparr>item_id = uuidSeq 0, item_x = Num 1300, item_y = Num 1300, rotation = Num 0, item_type = entry 1200 450\<rparr>,
          \<lparr>item_id = uuidSeq 1, item_x = Num 2550, item_y = Num 1300, rotation = Num 0, item_type = entry 1200 450\<rparr>,
          \<lparr>item_id = uuidSeq 2, item_x = Num 3800, item_y = Num 1300, rotation = Num 0, item_type = entry 1200 450\<rparr>,
          \<lparr>item_id = uuidSeq 3, item_x = Num 1300, item_y = Num 3650, rotation = Num 0, item_type = entry 1200 450\<rparr>,
          \<lparr>item_id = uuidSeq 4, item_x = Num 2550, item_y = Num 3650, rotation = Num 0, item_type = entry 1200 450\<rparr>,
          \<lparr>item_id = uuidSeq 5, item_x = Num 3800, item_y = Num 3650, rotation = Num 0, item_type = entry 1200 450\<rparr>]"
    by (rule scenarioB) simp_all
  show ?thesis
    using e generateLayout_containment[OF e,
      of "\<lparr>item_id = uuidSeq 5, item_x = Num 3800, item_y = Num 3650, rotation = Num 0,
            item_type = entry 1200 450\<rparr>"
         "Num 1200" "Num 1050" "\<lparr>px = Num 4400, py = Num 4175\<rparr>"]
    by (simp add: number_ops)
qed

text \<open>
  Claim C1 as stated takes the height of the footprint to be \<open>(tableDepth + 600) * scale\<close>.
  In binary64 that product is not the sum the source tests. At scale 1.1 and table
  depth 100 the source tests the height \<open>fl (100 * 1.1) + fl (600 * 1.1) = 770\<close>, while
  \<open>(100 + 600) * 1.1\<close> rounds to the next binary64 number above 770. In a room of
  that height and width 120, with aisle gap 0, the source emits one item at \<open>(0, 0)\<close>,
  and the lower left corner of the footprint of claim C1 lies on the upper edge of the
  room, which the ray-casting test counts as outside.
\<close>

theorem generateLayout_containment_counterexample:
  "generateLayout uuidSeq
      [pt 0 0, pt 120 0, \<lparr>px = Num 120, py = mul (Num 700) (Num (fl (11 / 10)))\<rparr>,
       \<lparr>px = Num 0, py = mul (Num 700) (Num (fl (11 / 10)))\<rparr>]
      [] (Num (fl (11 / 10))) standard [entry 100 100] (Num 0)
    = Some [\<lparr>item_id = uuidSeq 0, item_x = Num 0, item_y = Num 0, rotation = Num 0,
              item_type = entry 100 100\<rparr>]
   \<and> \<not> isPointInPolygon
        \<lparr>px = Num 0, py = add (Num 0) (mul (add (Num 100) (Num 600)) (Num (fl (11 / 10))))\<rparr>
        [pt 0 0, pt 120 0, \<lparr>px = Num 120, py = mul (Num 700) (Num (fl (11 / 10)))\<rparr>,
       \<lparr>px = Num 0, py = mul (Num 700) (Num (fl (11 / 10)))\<rparr>]"
  by (simp add: eval_defs fl_11_10 rounding_facts)

section \<open>Determinism\<close>

text \<open>
  Claim C9. The output is determined by the inputs and by the identifiers drawn: a call
  that returns \<open>items\<close> has drawn \<open>length items\<close> identifiers, and a second call on
  the same inputs whose identifier source yields the same first \<open>length items\<close>
  identifiers returns the same list (same ids, positions, rotation and catalogue
  entries, in the same order).
\<close>

theorem generateLayout_deterministic:
  assumes "generateLayout uuid polygon holes scale pattern furnitureTypes aisleGap = Some items"
      and "\<forall>k < length items. uuid' k = uuid k"
    shows "generateLayout uuid' polygon holes scale pattern furnitureTypes aisleGap = Some items"
proof -
  from assms(1) have "rowLoop uuid polygon holes scale furnitureTypes (Math_min (map px polygon))
      (Math_max (map px polygon)) (Math_max (map py polygon)) (mul aisleGap scale)
      (add (Math_min (map py polygon)) (mul aisleGap scale)) [] = Some items"
    by (simp add: generateLayout_def Let_def)
  from rowLoop_uuid[OF this] assms(2) show ?thesis
    by (simp add: generateLayout_def Let_def)
qed

theorem generateLayout_deterministic_witness:
  "generateLayout uuidSeq (square 6000) [] (Num 1) standard [entry 1200 450] (Num 1300) =
     Some [\<lparr>item_id = uuidSeq 0, item_x = Num 1300, item_y = Num 1300, rotation = Num 0, item_type = entry 1200 450\<rparr>,
          \<lparr>item_id = uuidSeq 1, item_x = Num 2550, item_y = Num 1300, rotation = Num 0, item_type = entry 1200 450\<rparr>,
          \<lparr>item_id = uuidSeq 2, item_x = Num 3800, item_y = Num 1300, rotation = Num 0, item_type = entry 1200 450\<rparr>,
          \<lparr>item_id = uuidSeq 3, item_x = Num 1300, item_y = Num 3650, rotation = Num 0, item_type = entry 1200 450\<rparr>,
          \<lparr>item_id = uuidSeq 4, item_x = Num 2550, item_y = Num 3650, rotation = Num 0, item_type = entry 1200 450\<rparr>,
          \<lparr>item_id = uuidSeq 5, item_x = Num 3800, item_y = Num 3650, rotation = Num 0, item_type = entry 1200 450\<rparr>]
   \<and> generateLayout (\<lambda>k. if k < 6 then uuidSeq k else []) (square 6000) [] (Num 1) standard
        [entry 1200 450] (Num 1300) =
     Some [\<lparr>item_id = uuidSeq 0, item_x = Num 1300, item_y = Num 1300, rotation = Num 0, item_type = entry 1200 450\<rparr>,
          \<lparr>item_id = uuidSeq 1, item_x = Num 2550, item_y = Num 1300, rotation = Num 0, item_type = entry 1200 450\<rparr>,
          \<lparr>item_id = uuidSeq 2, item_x = Num 3800, item_y = Num 1300, rotation = Num 0, item_type = entry 1200 450\<rparr>,
          \<lparr>item_id = uuidSeq 3, item_x = Num 1300, item_y = Num 3650, rotation = Num 0, item_type = entry 1200 450\<rparr>,
          \<lparr>item_id = uuidSeq 4, item_x = Num 2550, item_y = Num 3650, rotation = Num 0, item_type = entry 1200 450\<rparr>,
          \<lparr>item_id = uuidSeq 5, item_x = Num 3800, item_y = Num 3650, rotation = Num 0, item_type = entry 1200 450\<rparr>]"
proof -
  have e: "generateLayout uuidSeq (square 6000) [] (Num 1) standard [entry 1200 450] (Num 1300) =
     Some [\<lparr>item_id = uuidSeq 0, item_x = Num 1300, item_y = Num 1300, rotation = Num 0, item_type = entry 1200 450\<rparr>,
          \<lparr>item_id = uuidSeq 1, item_x = Num 2550, item_y = Num 1300, rotation = Num 0, item_type = entry 1200 450\<rparr>,
          \<lparr>item_id = uuidSeq 2, item_x = Num 3800, item_y = Num 1300, rotation = Num 0, item_type = entry 1200 450\<rparr>,
          \<lparr>item_id = uuidSeq 3, item_x = Num 1300, item_y = Num 3650, rotation = Num 0, item_type = entry 1200 450\<rparr>,
          \<lparr>item_id = uuidSeq 4, item_x = Num 2550, item_y = Num 3650, rotation = Num 0, item_type = entry 1200 450\<rparr>,
          \<lparr>item_id = uuidSeq 5, item_x = Num 3800, item_y = Num 3650, rotation = Num 0, item_type = entry 1200 450\<rparr>]"
    by (rule scenarioB) simp_all
  show ?thesis
    using e generateLayout_deterministic [OF e, of "\<lambda>k. if k < 6 then uuidSeq k else []"]
    by simp
qed

section \<open>Scenario B\<close>

text \<open>
  Claim C2. Scenario B: on the 6000 by 6000 square, without holes, at scale 1, with a
  single catalogue entry of table width 1200 and table depth 450 that is not disabled
  (chair depth 600) and an aisle gap of 1300, \<open>generateLayout\<close> returns exactly six
  items, in row-major order: x = 1300, 2550, 3800 at y = 1300, then the same at
  y = 3650. Every number met in this run is an integer below \<open>2 ^ 53\<close>, so that no
  operation rounds.
\<close>

theorem scenario_B:
  assumes "tableWidth f = Num 1200" "tableDepth f = Num 450" "enabled f \<noteq> Some False"
  shows "generateLayout uuid (square 6000) [] (Num 1) standard [f] (Num 1300) =
    Some [\<lparr>item_id = uuid 0, item_x = Num 1300, item_y = Num 1300, rotation = Num 0, item_type = f\<rparr>,
          \<lparr>item_id = uuid 1, item_x = Num 2550, item_y = Num 1300, rotation = Num 0, item_type = f\<rparr>,
          \<lparr>item_id = uuid 2, item_x = Num 3800, item_y = Num 1300, rotation = Num 0, item_type = f\<rparr>,
          \<lparr>item_id = uuid 3, item_x = Num 1300, item_y = Num 3650, rotation = Num 0, item_type = f\<rparr>,
          \<lparr>item_id = uuid 4, item_x = Num 2550, item_y = Num 3650, rotation = Num 0, item_type = f\<rparr>,
          \<lparr>item_id = uuid 5, item_x = Num 3800, item_y = Num 3650, rotation = Num 0, item_type = f\<rparr>]"
  using assms by (rule scenarioB)

theorem scenario_B_witness:
  "tableWidth (entry 1200 450) = Num 1200 \<and> tableDepth (entry 1200 450) = Num 450
   \<and> enabled (entry 1200 450) \<noteq> Some False
   \<and> generateLayout uuidSeq (square 6000) [] (Num 1) standard [entry 1200 450] (Num 1300) =
    Some [\<lparr>item_id = ''u'', item_x = Num 1300, item_y = Num 1300, rotation = Num 0, item_type = entry 1200 450\<rparr>,
          \<lparr>item_id = ''uu'', item_x = Num 2550, item_y = Num 1300, rotation = Num 0, item_type = entry 1200 450\<rparr>,
          \<lparr>item_id = ''uuu'', item_x = Num 3800, item_y = Num 1300, rotation = Num 0, item_type = entry 1200 450\<rparr>,
          \<lparr>item_id = ''uuuu'', item_x = Num 1300, item_y = Num 3650, rotation = Num 0, item_type = entry 1200 450\<rparr>,
          \<lparr>item_id = ''uuuuu'', item_x = Num 2550, item_y = Num 3650, rotation = Num 0, item_type = entry 1200 450\<rparr>,
          \<lparr>item_id = ''uuuuuu'', item_x = Num 3800, item_y = Num 3650, rotation = Num 0, item_type = entry 1200 450\<rparr>]"
  using scenario_B [of "entry 1200 450" uuidSeq]
  by (simp add: uuidSeq_def eval_nat_numeral)

section \<open>A negative scale\<close>

lemma negative_scale_column:
  "columnLoop uuidSeq (square 6000) [] (Num (- 1)) [entry 1200 450] (Num 6000) cy (Num (- 1300))
     rh items = None"
proof (rule columnLoop_never_exits
    [where I = "\<lambda>cx. cx = NegInf \<or> (\<exists>r. cx = Num r \<and> r \<le> - 1300)"])
  show "Num (- 1300) = NegInf \<or> (\<exists>r. Num (- 1300) = Num r \<and> r \<le> - 1300)" by simp
next
  fix cx assume "cx = NegInf \<or> (\<exists>r. cx = Num r \<and> r \<le> - 1300)"
  then show "lt cx (Num 6000)" by auto
next
  fix cx fType
  assume i: "cx = NegInf \<or> (\<exists>r. cx = Num r \<and> r \<le> - 1300)"
    and "firstFit (square 6000) [] (Num (- 1)) cx cy [entry 1200 450] = Some fType"
  with firstFit_Some[of "square 6000" "[]" "Num (- 1)" cx cy "[entry 1200 450]" fType]
  have "fType = entry 1200 450" by simp
  then have "add (mul (tableWidth fType) (Num (- 1))) (mul (Num 50) (Num (- 1))) = Num (- 1250)"
    by (simp add: entry_def)
  with moves_left[OF i, of "- 1250"]
  show "add cx (add (mul (tableWidth fType) (Num (- 1))) (mul (Num 50) (Num (- 1)))) = NegInf \<or>
        (\<exists>r. add cx (add (mul (tableWidth fType) (Num (- 1))) (mul (Num 50) (Num (- 1)))) = Num r
              \<and> r \<le> - 1300)"
    by simp
next
  fix cx
  assume i: "cx = NegInf \<or> (\<exists>r. cx = Num r \<and> r \<le> - 1300)"
  from moves_left[OF i, of "- 50"]
  show "add cx (mul (Num 50) (Num (- 1))) = NegInf \<or>
        (\<exists>r. add cx (mul (Num 50) (Num (- 1))) = Num r \<and> r \<le> - 1300)"
    by simp
qed

text \<open>
  Claim C3. The source has no check on \<open>scale\<close>. With a negative scale on the
  6000 by 6000 square the sweep is entered, the column cursor only moves left and the
  call never returns: no error is signalled.
\<close>

theorem generateLayout_negative_scale:
  "generateLayout uuidSeq (square 6000) [] (Num (- 1)) standard [entry 1200 450] (Num 1300) = None"
  by (simp add: generateLayout_def square_def rectangle_def pt_def number_ops rowLoop.simps
      negative_scale_column[unfolded square_def rectangle_def pt_def])

section \<open>The containment tester on degenerate polygons\<close>

text \<open>
  Claim C10, amended. For every point and every vertex list with fewer than two
  vertices \<open>isPointInPolygon\<close> returns false.
\<close>

theorem isPointInPolygon_fewer_than_2:
  assumes "length vs < 2"
  shows "\<not> isPointInPolygon point vs"
  using assms by (rule isPointInPolygon_one)

theorem isPointInPolygon_fewer_than_2_witness:
  "length [pt 3 4] < 2 \<and> \<not> isPointInPolygon (pt 3 4) [pt 3 4]"
  using isPointInPolygon_fewer_than_2[of "[pt 3 4]" "pt 3 4"] by simp

text \<open>
  Claim C10 as stated fails for two vertices. The two passes of the loop test the same
  segment, but compute the abscissa of the crossing by two different expressions, which
  round differently. For the vertices \<open>(0, 0)\<close>, \<open>(1, 1)\<close> and the point \<open>(0.3, 0.3)\<close>
  the first pass computes the abscissa \<open>0.3\<close>, which the point does not lie left of, and
  the second pass \<open>(0 - 1) * (0.3 - 1) / (0 - 1) + 1\<close>, that is 0.30000000000000004:
  one crossing is counted and the point is reported inside.
\<close>

theorem isPointInPolygon_fewer_than_3_counterexample:
  "length [pt 0 0, pt 1 1] < 3
   \<and> isPointInPolygon (pt (fl (3 / 10)) (fl (3 / 10))) [pt 0 0, pt 1 1]"
  by (simp add: eval_defs fl_3_10 rounding_facts)

section \<open>Point lists of fewer than three points\<close>

text \<open>
  Claim C5, amended. For a point list with fewer than three points \<open>snapToRectilinear\<close>
  returns its input unchanged for every threshold. For a point list with fewer than
  two points \<open>generateLayout\<close> places nothing: it returns the empty list whenever the
  ordinate of the point is a number and the pixel gap \<open>aisleGap * scale\<close> is not
  negative, and on every other input on which it returns.
\<close>

theorem fewer_than_3_points:
  assumes "length points < 3"
  shows "snapToRectilinear points threshold = points
       \<and> (length points < 2 \<longrightarrow>
            (generateLayout uuid points holes scale pattern furnitureTypes aisleGap = Some items
               \<longrightarrow> items = [])
          \<and> ((\<forall>p \<in> set points. isNumber (py p)) \<and> \<not> lt (mul aisleGap scale) (Num 0) \<longrightarrow>
               generateLayout uuid points holes scale pattern furnitureTypes aisleGap = Some []))"
proof (intro conjI impI)
  show "snapToRectilinear points threshold = points"
    using assms by (simp add: snapToRectilinear_def)
next
  assume "length points < 2"
    and "generateLayout uuid points holes scale pattern furnitureTypes aisleGap = Some items"
  then show "items = []" by (rule generateLayout_short_empty)
next
  assume l: "length points < 2"
    and h: "(\<forall>p \<in> set points. isNumber (py p)) \<and> \<not> lt (mul aisleGap scale) (Num 0)"
  show "generateLayout uuid points holes scale pattern furnitureTypes aisleGap = Some []"
  proof (cases points)
    case Nil
    then show ?thesis by (simp add: generateLayout_Nil)
  next
    case (Cons p ps)
    with l have "points = [p]" by simp
    with h show ?thesis by (simp add: generateLayout_single)
  qed
qed

theorem fewer_than_3_points_witness:
  "length [pt 100 50] < 3
   \<and> snapToRectilinear [pt 100 50] (Num 20) = [pt 100 50]
   \<and> length [pt 100 50] < 2
   \<and> isNumber (py (pt 100 50)) \<and> \<not> lt (mul (Num 1300) (Num 1)) (Num 0)
   \<and> generateLayout uuidSeq [pt 100 50] [] (Num 1) standard [entry 1200 450] (Num 1300) = Some []"
  using fewer_than_3_points
    [of "[pt 100 50]" "Num 20" uuidSeq "[]" "Num 1" standard "[entry 1200 450]" "Num 1300" "[]"]
  by (simp add: pt_def)

text \<open>
  Claim C5 as stated fails for two points. \<open>generateLayout\<close> has no test on the number
  of points; its result depends on \<open>isPointInPolygon\<close>, which reports the point
  \<open>(0.3, 0.3)\<close> inside the two-point list \<open>(0, 0)\<close>, \<open>(1, 1)\<close>. With an aisle gap of 0.3
  at scale 1 the sweep starts at that point, and a catalogue entry whose footprint is
  reduced to a point (table width 0, table depth -600) is emitted there.
\<close>

theorem fewer_than_3_points_counterexample:
  "length [pt 0 0, pt 1 1] < 3
   \<and> generateLayout uuidSeq [pt 0 0, pt 1 1] [] (Num 1) standard [entry 0 (- 600)]
        (Num (fl (3 / 10)))
     = Some [\<lparr>item_id = uuidSeq 0, item_x = Num (fl (3 / 10)), item_y = Num (fl (3 / 10)),
               rotation = Num 0, item_type = entry 0 (- 600)\<rparr>]"
  by (simp add: eval_defs fl_3_10 rounding_facts)

section \<open>Termination of \<open>generateLayout\<close>\<close>

text \<open>
  Claim C6, amended. \<open>generateLayout\<close> returns on every input with a strictly positive
  finite scale, a non-negative finite aisle gap, finite polygon coordinates and
  non-negative finite table width and depth on every catalogue entry that is not
  disabled, provided that rounding absorbs no step of the sweep: \<open>x + 50 * scale > x\<close>
  for every binary64 value \<open>x\<close> from the least abscissa of the polygon up to, and not
  including, the greatest one, and \<open>y + 100 * scale > y\<close> likewise for the ordinates.
  Every column iteration then moves the cursor to a greater binary64 value, and so does
  every row iteration; there are finitely many such values below the bound.
\<close>

theorem generateLayout_terminates:
  assumes "0 < s" and "0 \<le> g"
    and "\<forall>p \<in> set polygon. finite_number (px p) \<and> finite_number (py p)"
    and "\<forall>f \<in> set fts. enabled f \<noteq> Some False \<longrightarrow>
        (\<exists>w d. tableWidth f = Num w \<and> 0 \<le> w \<and> tableDepth f = Num d \<and> 0 \<le> d)"
    and "\<forall>x. isDouble x \<and> le (Math_min (map px polygon)) (Num x)
        \<and> lt (Num x) (Math_max (map px polygon))
        \<longrightarrow> lt (Num x) (add (Num x) (mul (Num 50) (Num s)))"
    and "\<forall>y. isDouble y \<and> le (Math_min (map py polygon)) (Num y)
        \<and> lt (Num y) (Math_max (map py polygon))
        \<longrightarrow> lt (Num y) (add (Num y) (mul (Num 100) (Num s)))"
  shows "\<exists>items. generateLayout uuid polygon holes (Num s) pattern fts (Num g) = Some items"
  using assms by (rule generateLayout_returns)

theorem generateLayout_terminates_witness:
  "(0::real) < 1 \<and> (0::real) \<le> 1300
   \<and> (\<exists>items. generateLayout uuidSeq (square 6000) [] (Num 1) standard [entry 1200 450]
         (Num 1300) = Some items)"
proof -
  have b: "(6000::real) \<le> 2 ^ 52" by simp
  have colstep: "\<forall>x. isDouble x \<and> le (Math_min (map px (square 6000))) (Num x)
        \<and> lt (Num x) (Math_max (map px (square 6000)))
        \<longrightarrow> lt (Num x) (add (Num x) (mul (Num 50) (Num 1)))"
    using b by (auto simp: square_def rectangle_def pt_def number_ops simp del: add.simps
        intro!: no_absorption)
  have rowstep: "\<forall>y. isDouble y \<and> le (Math_min (map py (square 6000))) (Num y)
        \<and> lt (Num y) (Math_max (map py (square 6000)))
        \<longrightarrow> lt (Num y) (add (Num y) (mul (Num 100) (Num 1)))"
    using b by (auto simp: square_def rectangle_def pt_def number_ops simp del: add.simps
        intro!: no_absorption)
  show ?thesis
    using generateLayout_terminates[where s = 1 and g = 1300 and polygon = "square 6000"
        and fts = "[entry 1200 450]" and uuid = uuidSeq and holes = "[]" and pattern = standard,
        OF _ _ _ _ colstep rowstep]
    by (simp add: square_def rectangle_def pt_def)
qed

lemma absorbed_column:
  "columnLoop uuidSeq (rectangle 1000000000000000000 0 1000000000000004096 6000) [] (Num 1)
     [entry 1200 450] (Num 1000000000000004096) (Num 1000) (Num 1000000000000003584) rh items
   = None"
proof (rule columnLoop_never_exits[where I = "\<lambda>c. c = Num 1000000000000003584"])
  fix cx fType
  assume "cx = Num 1000000000000003584"
    and "firstFit (rectangle 1000000000000000000 0 1000000000000004096 6000) [] (Num 1) cx
           (Num 1000) [entry 1200 450] = Some fType"
  then show "add cx (add (mul (tableWidth fType) (Num 1)) (mul (Num 50) (Num 1)))
      = Num 1000000000000003584"
    by (simp add: test_defs rounding_facts)
next
  fix cx
  assume "cx = Num 1000000000000003584"
  then show "add cx (mul (Num 50) (Num 1)) = Num 1000000000000003584"
    by (simp add: rounding_facts)
qed simp_all

text \<open>
  Claim C6 as stated fails. In the room from \<open>(1e18, 0)\<close> to \<open>(1e18 + 4096, 6000)\<close>,
  at scale 1, with the 1200 by 450 table and an aisle gap of 1000, all inputs are finite
  and the scale is positive. Binary64 values near \<open>1e18\<close> are 128 apart. The first row
  places two tables, at \<open>1e18 + 1024\<close> and \<open>1e18 + 2304\<close>; at \<open>1e18 + 3584\<close> the table
  does not fit, and the step \<open>currentX += 50\<close> rounds back to \<open>1e18 + 3584\<close>. The column
  loop never exits.
\<close>

theorem generateLayout_terminates_counterexample:
  "generateLayout uuidSeq (rectangle 1000000000000000000 0 1000000000000004096 6000) [] (Num 1)
     standard [entry 1200 450] (Num 1000) = None"
proof -
  let ?col = "columnLoop uuidSeq (rectangle 1000000000000000000 0 1000000000000004096 6000) []
     (Num 1) [entry 1200 450] (Num 1000000000000004096) (Num 1000)"
  have "?col (Num 1000000000000002304) rh items = None" for rh items
    by (subst columnLoop.simps) (simp add: test_defs rounding_facts absorbed_column[unfolded rectangle_def pt_def])
  then have "?col (Num 1000000000000001024) rh items = None" for rh items
    by (subst columnLoop.simps) (simp add: test_defs rounding_facts)
  then show ?thesis
    by (subst generateLayout_def, subst rowLoop.simps)
       (simp add: rectangle_def pt_def number_ops Let_def rounding_facts)
qed

text \<open>
  The source checks neither the catalogue nor the gap. With a table width of -50 mm at
  scale 1 the advance after a placement is \<open>-50 + 50 = 0\<close>, and the column loop emits
  items at the same position for ever.
\<close>

lemma generateLayout_negative_width:
  "generateLayout uuidSeq (square 6000) [] (Num 1) standard [entry (- 50) 450] (Num 1300) = None"
proof -
  have "columnLoop uuidSeq (square 6000) [] (Num 1) [entry (- 50) 450] (Num 6000) (Num 1300)
          (Num 1300) rh items = None" for rh items
    by (rule columnLoop_never_exits[where I = "\<lambda>c. c = Num 1300"])
       (auto simp: square_def test_defs)
  then show ?thesis
    by (subst generateLayout_def, subst rowLoop.simps)
       (simp add: square_def rectangle_def pt_def number_ops Let_def)
qed

section \<open>What the normalizer computes\<close>




text \<open>
  A chain whose mean is 0 keeps its raw values, because \<open>valueMap.get(v) || v\<close> takes
  a stored 0 for a missing entry: the abscissae -10 and 10 (threshold 20) are left as
  they are, while the ordinates 300 and 310 both become 305.
\<close>

lemma snapToRectilinear_zero_mean:
  "snapToRectilinear [pt (- 10) 0, pt 10 300, pt 500 310] (Num 20)
     = [pt (- 10) 0, pt 10 305, pt 500 305]
   \<and> chains (map px [pt (- 10) 0, pt 10 300, pt 500 310]) (Num 20)
     = [[Num (- 10), Num 10], [Num 500]]
   \<and> avg [Num (- 10), Num 10] = Num 0"
  by (simp add: snap_eval upt_rec)

section \<open>The aisle gap and the number of items\<close>

lemma bounding_box_rectangle:
  assumes "x0 < x1" "y0 < y1"
  shows "Math_min (map px (rectangle x0 y0 x1 y1)) = Num x0"
    "Math_max (map px (rectangle x0 y0 x1 y1)) = Num x1"
    "Math_min (map py (rectangle x0 y0 x1 y1)) = Num y0"
    "Math_max (map py (rectangle x0 y0 x1 y1)) = Num y1"
  using assms by (simp_all add: rectangle_def pt_def Math_min_def Math_max_def min2_def max2_def)

lemma generateLayout_mono_rectangle:
  assumes ok: "sweepOK x0 y0 x1 y1 s f" and g: "0 \<le> g1" "g1 \<le> g2"
  shows "\<exists>items1 items2.
      generateLayout uuid1 (rectangle x0 y0 x1 y1) [] (Num s) pattern1 [f] (Num g1) = Some items1
    \<and> generateLayout uuid2 (rectangle x0 y0 x1 y1) [] (Num s) pattern2 [f] (Num g2) = Some items2
    \<and> length items2 \<le> length items1"
proof -
  let ?R = "rectangle x0 y0 x1 y1"
  let ?gap1 = "mul (Num g1) (Num s)" and ?gap2 = "mul (Num g2) (Num s)"
  from ok have r: "x0 < x1" "y0 < y1" "isDouble y0" "0 < s" unfolding sweepOK_def by simp_all
  have c: "cursor 0 ?gap1" "cursor 0 ?gap2" using g r(4) by (simp_all add: cursor_rnd)
  have l: "le ?gap1 ?gap2" using g r(4) by (intro mul_mono) simp_all
  have y: "cursor y0 (add (Num y0) ?gap1)" "cursor y0 (add (Num y0) ?gap2)"
    using r(3) c by (auto intro!: cursor_step(1) simp del: mul.simps add.simps)
  have yl: "le (add (Num y0) ?gap1) (add (Num y0) ?gap2)" by (rule add_right_mono[OF l])
  from sweepOK_row_returns[OF ok c(1) y(1)] obtain items1 where
    r1: "rowLoop uuid1 ?R [] (Num s) [f] (Num x0) (Num x1) (Num y1) ?gap1 (add (Num y0) ?gap1) []
         = Some items1" by blast
  from sweepOK_row_returns[OF ok c(2) y(2)] obtain items2 where
    r2: "rowLoop uuid2 ?R [] (Num s) [f] (Num x0) (Num x1) (Num y1) ?gap2 (add (Num y0) ?gap2) []
         = Some items2" by blast
  have "length items2 + length ([]::PlacedItem list) \<le> length items1 + length ([]::PlacedItem list)"
    by (rule sweepOK_row_mono[OF ok c l y yl r1 r2])
  then show ?thesis
    using r1 r2 by (simp add: generateLayout_def Let_def bounding_box_rectangle[OF r(1,2)]
        del: mul.simps add.simps)
qed

text \<open>
  Claim C8, amended. In an axis-aligned rectangular room without holes, with
  non-negative ordinates, a catalogue of one entry of non-negative table width and
  depth, a strictly positive scale, and no step of the sweep absorbed by rounding
  (\<open>x + 50 * scale > x\<close> for every binary64 \<open>x\<close> in \<open>[x0, x1)\<close> and
  \<open>y + 100 * scale > y\<close> for every binary64 \<open>y\<close> in \<open>[y0, y1)\<close>), the three calls
  return, and the tight gap (1000 mm) places at least as many items as the standard gap
  (1300 mm), which places at least as many as the generous gap (1600 mm).
\<close>

theorem aisle_gap_monotone_rectangle:
  assumes "isDouble x0" "isDouble x1" "x0 < x1" "isDouble y0" "isDouble y1" "0 \<le> y0" "y0 < y1"
    and "0 < s"
    and "tableWidth f = Num w" "0 \<le> w" "tableDepth f = Num d" "0 \<le> d"
    and "\<forall>x. isDouble x \<and> x0 \<le> x \<and> x < x1 \<longrightarrow> lt (Num x) (add (Num x) (mul (Num 50) (Num s)))"
    and "\<forall>y. isDouble y \<and> y0 \<le> y \<and> y < y1 \<longrightarrow> lt (Num y) (add (Num y) (mul (Num 100) (Num s)))"
  shows "\<exists>tight std gen.
      generateLayout uuid (rectangle x0 y0 x1 y1) [] (Num s) cramped [f]
        (PATTERN_CONFIG_aisleGap cramped) = Some tight
    \<and> generateLayout uuid (rectangle x0 y0 x1 y1) [] (Num s) standard [f]
        (PATTERN_CONFIG_aisleGap standard) = Some std
    \<and> generateLayout uuid (rectangle x0 y0 x1 y1) [] (Num s) spacious [f]
        (PATTERN_CONFIG_aisleGap spacious) = Some gen
    \<and> length std \<le> length tight \<and> length gen \<le> length std"
proof -
  from assms have ok: "sweepOK x0 y0 x1 y1 s f" unfolding sweepOK_def by blast
  from generateLayout_mono_rectangle[OF ok, of 1000 1300 uuid cramped uuid standard]
  obtain tight std where a:
    "generateLayout uuid (rectangle x0 y0 x1 y1) [] (Num s) cramped [f] (Num 1000) = Some tight"
    "generateLayout uuid (rectangle x0 y0 x1 y1) [] (Num s) standard [f] (Num 1300) = Some std"
    "length std \<le> length tight" by auto
  from generateLayout_mono_rectangle[OF ok, of 1300 1600 uuid standard uuid spacious]
  obtain std' gen where b:
    "generateLayout uuid (rectangle x0 y0 x1 y1) [] (Num s) standard [f] (Num 1300) = Some std'"
    "generateLayout uuid (rectangle x0 y0 x1 y1) [] (Num s) spacious [f] (Num 1600) = Some gen"
    "length gen \<le> length std'" by auto
  from a b show ?thesis by simp
qed

theorem aisle_gap_monotone_rectangle_witness:
  "(0::real) < 5000 \<and> (0::real) < 1 \<and> tableWidth (entry 1200 450) = Num 1200
   \<and> tableDepth (entry 1200 450) = Num 450
   \<and> (\<exists>tight std gen.
      generateLayout uuidSeq (rectangle 0 0 5000 5000) [] (Num 1) cramped [entry 1200 450]
        (PATTERN_CONFIG_aisleGap cramped) = Some tight
    \<and> generateLayout uuidSeq (rectangle 0 0 5000 5000) [] (Num 1) standard [entry 1200 450]
        (PATTERN_CONFIG_aisleGap standard) = Some std
    \<and> generateLayout uuidSeq (rectangle 0 0 5000 5000) [] (Num 1) spacious [entry 1200 450]
        (PATTERN_CONFIG_aisleGap spacious) = Some gen
    \<and> length std \<le> length tight \<and> length gen \<le> length std)"
proof -
  have b: "(5000::real) \<le> 2 ^ 52" by simp
  have colstep: "\<forall>x. isDouble x \<and> 0 \<le> x \<and> x < 5000
      \<longrightarrow> lt (Num x) (add (Num x) (mul (Num 50) (Num 1)))"
    using b by (auto simp del: add.simps intro!: no_absorption)
  have rowstep: "\<forall>y. isDouble y \<and> 0 \<le> y \<and> y < 5000
      \<longrightarrow> lt (Num y) (add (Num y) (mul (Num 100) (Num 1)))"
    using b by (auto simp del: add.simps intro!: no_absorption)
  show ?thesis
    using aisle_gap_monotone_rectangle [where ?x0.0 = 0 and ?x1.0 = 5000 and ?y0.0 = 0
        and ?y1.0 = 5000 and s = 1 and f = "entry 1200 450" and w = 1200 and d = 450
        and uuid = uuidSeq, OF _ _ _ _ _ _ _ _ _ _ _ _ colstep rowstep]
    by simp
qed

text \<open>
  Claim C8 as stated fails. In the hole-free 5100 by 2600 rectangle, at scale 1, with
  the catalogue of a 1800 by 900 table followed by a 1200 by 450 table, the tight gap
  places two items (the deep table fits at y = 1000 and is taken first) and the
  standard gap places three (at y = 1300 only the shallow table fits).
\<close>

theorem aisle_gap_monotone_counterexample:
  "map_option (map placement)
     (generateLayout uuidSeq (rectangle 0 0 5100 2600) [] (Num 1) cramped
        [entry 1800 900, entry 1200 450] (PATTERN_CONFIG_aisleGap cramped))
     = Some [(Num 1000, Num 1000, Num 1800), (Num 2850, Num 1000, Num 1800)]
   \<and> map_option (map placement)
     (generateLayout uuidSeq (rectangle 0 0 5100 2600) [] (Num 1) standard
        [entry 1800 900, entry 1200 450] (PATTERN_CONFIG_aisleGap standard))
     = Some [(Num 1300, Num 1300, Num 1200), (Num 2550, Num 1300, Num 1200),
             (Num 3800, Num 1300, Num 1200)]"
  by (simp add: eval_defs placement_def)

text \<open>
  A hole breaks the order for a single-entry catalogue as well: a thin hole along
  y = 1000 blocks the tight row after its first table, and no row of the standard gap.
\<close>

lemma aisle_gap_hole_example:
  "map_option (map placement)
     (generateLayout uuidSeq (rectangle 0 0 3800 3000) [rectangle 2225 990 3790 1010] (Num 1)
        cramped [entry 1200 450] (PATTERN_CONFIG_aisleGap cramped))
     = Some [(Num 1000, Num 1000, Num 1200)]
   \<and> map_option (map placement)
     (generateLayout uuidSeq (rectangle 0 0 3800 3000) [rectangle 2225 990 3790 1010] (Num 1)
        standard [entry 1200 450] (PATTERN_CONFIG_aisleGap standard))
     = Some [(Num 1300, Num 1300, Num 1200), (Num 2550, Num 1300, Num 1200)]"
  by (simp add: eval_defs placement_def)

end
